theory Spec2Isabelle
  imports Complex_Main "HOL-Library.AList"
begin

section \<open>Python \<open>Decimal\<close> values\<close>

text \<open>
  The engine computes with \<open>decimal.Decimal\<close> under the default context: precision 28,
  rounding \<open>ROUND_HALF_EVEN\<close>. A finite \<open>Decimal\<close> is modelled by its value, a rational.
  Every arithmetic result (\<open>+\<close>, \<open>-\<close>, \<open>*\<close>, \<open>/\<close>, \<open>abs\<close>) is the exact result rounded to
  28 significant digits; comparisons, \<open>min\<close> and \<open>Decimal(str(x))\<close> are exact;
  \<open>quantize(Decimal('0.01'))\<close> rounds to two places and raises \<open>InvalidOperation\<close> when the
  result does not fit 28 digits. The exponent limits of the context (\<open>10 ^ 999999\<close>) and the
  special values \<open>NaN\<close> and \<open>Infinity\<close> are outside the model.
\<close>

type_synonym decimal = rat

datatype error = InvalidOperation

function digits10 :: "int \<Rightarrow> nat" where
  "digits10 n = (if n < 10 then 1 else Suc (digits10 (n div 10)))"
  by pat_completeness auto
termination
  by (relation "measure nat") auto

declare digits10.simps [simp del]

text \<open>\<open>adjusted x\<close> is the exponent of the leading digit of \<open>x \<noteq> 0\<close> (Python's \<open>Decimal.adjusted\<close>).\<close>

definition adjusted :: "decimal \<Rightarrow> int" where
  "adjusted x =
     (if 1 \<le> \<bar>x\<bar> then int (digits10 \<lfloor>\<bar>x\<bar>\<rfloor>) - 1
      else - int (digits10 (\<lceil>1 / \<bar>x\<bar>\<rceil> - 1)))"

definition scale10 :: "rat \<Rightarrow> int \<Rightarrow> rat" where
  "scale10 x e = (if 0 \<le> e then x * 10 ^ nat e else x / 10 ^ nat (- e))"

definition round_half_even :: "rat \<Rightarrow> int" where
  "round_half_even q =
     (let f = \<lfloor>q\<rfloor>; r = q - of_int f
      in if r < 1 / 2 then f else if 1 / 2 < r then f + 1
         else if even f then f else f + 1)"

definition round_half_up :: "rat \<Rightarrow> int" where
  "round_half_up q = (if 0 \<le> q then \<lfloor>q + 1 / 2\<rfloor> else - \<lfloor>- q + 1 / 2\<rfloor>)"

text \<open>Rounding of an exact result to the context precision of 28 significant digits.\<close>

definition ctx_round :: "rat \<Rightarrow> decimal" where
  "ctx_round x =
     (if x = 0 then 0
      else let e = adjusted x - 27
           in scale10 (of_int (round_half_even (scale10 x (- e)))) e)"

definition dadd :: "decimal \<Rightarrow> decimal \<Rightarrow> decimal" where
  "dadd a b = ctx_round (a + b)"

definition dsub :: "decimal \<Rightarrow> decimal \<Rightarrow> decimal" where
  "dsub a b = ctx_round (a - b)"

definition dmul :: "decimal \<Rightarrow> decimal \<Rightarrow> decimal" where
  "dmul a b = ctx_round (a * b)"

text \<open>Division; every call site of the source guards the divisor against zero.\<close>

definition ddiv :: "decimal \<Rightarrow> decimal \<Rightarrow> decimal" where
  "ddiv a b = ctx_round (a / b)"

definition dabs :: "decimal \<Rightarrow> decimal" where
  "dabs a = ctx_round \<bar>a\<bar>"

text \<open>\<open>sum(values)\<close>: Python starts from the integer 0 and adds from the left.\<close>

definition dsum :: "decimal list \<Rightarrow> decimal" where
  "dsum xs = foldl dadd 0 xs"

text \<open>\<open>x.quantize(Decimal('0.01'), rounding=ROUND_HALF_UP)\<close> and
  \<open>x.quantize(Decimal('0.01'))\<close> (context rounding, half even).\<close>

definition quantize_with :: "(rat \<Rightarrow> int) \<Rightarrow> decimal \<Rightarrow> error + decimal" where
  "quantize_with rnd x =
     (let c = rnd (x * 100)
      in if 10 ^ 28 \<le> \<bar>c\<bar> then Inl InvalidOperation else Inr (of_int c / 100))"

definition quantize_half_up :: "decimal \<Rightarrow> error + decimal" where
  "quantize_half_up = quantize_with round_half_up"

definition quantize_ctx :: "decimal \<Rightarrow> error + decimal" where
  "quantize_ctx = quantize_with round_half_even"

text \<open>A whole number of cents.\<close>

definition is_cents :: "decimal \<Rightarrow> bool" where
  "is_cents x \<longleftrightarrow> of_int \<lfloor>x * 100\<rfloor> = x * 100"

section \<open>Compliance validation\<close>

text \<open>The two flags read from the agreement terms with \<open>.get(key, False)\<close>.\<close>

record agreement_flags =
  has_deficit_restoration_obligation :: bool
  has_qualified_income_offset :: bool

text \<open>The warnings written to the logger, in the order they are written.\<close>

datatype log_entry =
    LacksDroQio
  | DeficitWithoutProtection string

subsection \<open>\<open>CapitalAccountManager._validate_allocations_compliance\<close>\<close>

record compliance_check =
  substantial_economic_effect :: bool
  capital_account_maintenance :: bool
  liquidation_consistency :: bool
  deficit_restoration_obligation :: bool

text \<open>The loop over \<open>target_balances.items()\<close>; a dict is an association list in
  insertion order.\<close>

fun check_target_balances ::
  "bool \<Rightarrow> bool \<Rightarrow> (string \<times> decimal) list \<Rightarrow> compliance_check \<times> log_entry list
     \<Rightarrow> compliance_check \<times> log_entry list" where
  "check_target_balances has_dro has_qio [] st = st"
| "check_target_balances has_dro has_qio ((partner_id, balance) # rest) (cc, lg) =
     (if balance < 0 \<and> \<not> has_dro \<and> \<not> has_qio
      then check_target_balances has_dro has_qio rest
             (cc\<lparr>substantial_economic_effect := False\<rparr>,
              lg @ [DeficitWithoutProtection partner_id])
      else check_target_balances has_dro has_qio rest (cc, lg))"

definition validate_allocations_compliance ::
  "(string \<times> decimal) list \<Rightarrow> agreement_flags \<Rightarrow> (string \<times> decimal) list
     \<Rightarrow> compliance_check \<times> log_entry list" where
  "validate_allocations_compliance allocations agreement_terms target_balances =
     (let compliance_check0 =
            \<lparr>substantial_economic_effect = True,
             capital_account_maintenance = True,
             liquidation_consistency = True,
             deficit_restoration_obligation = True\<rparr>;
          has_dro = has_deficit_restoration_obligation agreement_terms;
          has_qio = has_qualified_income_offset agreement_terms;
          st = (if \<not> (has_dro \<or> has_qio)
                then (compliance_check0\<lparr>deficit_restoration_obligation := False\<rparr>,
                      [LacksDroQio])
                else (compliance_check0, []))
      in check_target_balances has_dro has_qio target_balances st)"

subsection \<open>\<open>tax_calculations.validate_substantial_economic_effect\<close>\<close>

record validation_results =
  capital_account_maintenance_u :: bool
  liquidation_consistency_u :: bool
  deficit_restoration :: bool
  substantial_economic_effect_u :: bool

text \<open>The loop over \<open>capital_accounts.items()\<close> stops at the first unprotected deficit
  (\<open>break\<close>); it returns the flag and the warning logged.\<close>

fun has_unprotected_deficit ::
  "bool \<Rightarrow> bool \<Rightarrow> (string \<times> decimal) list \<Rightarrow> bool \<times> log_entry list" where
  "has_unprotected_deficit has_dro has_qio [] = (False, [])"
| "has_unprotected_deficit has_dro has_qio ((partner_id, balance) # rest) =
     (if balance < 0 \<and> \<not> (has_dro \<or> has_qio)
      then (True, [DeficitWithoutProtection partner_id])
      else has_unprotected_deficit has_dro has_qio rest)"

definition validate_substantial_economic_effect ::
  "(string \<times> decimal) list \<Rightarrow> (string \<times> decimal) list \<Rightarrow> agreement_flags
     \<Rightarrow> validation_results \<times> log_entry list" where
  "validate_substantial_economic_effect allocations capital_accounts partnership_agreement =
     (let validation_results0 =
            \<lparr>capital_account_maintenance_u = True,
             liquidation_consistency_u = True,
             deficit_restoration = False,
             substantial_economic_effect_u = False\<rparr>;
          has_dro = has_deficit_restoration_obligation partnership_agreement;
          has_qio = has_qualified_income_offset partnership_agreement;
          r1 = (if has_dro \<or> has_qio
                then validation_results0\<lparr>deficit_restoration := True\<rparr>
                else validation_results0);
          (deficit, lg) = has_unprotected_deficit has_dro has_qio capital_accounts;
          r2 = (if \<not> deficit then r1\<lparr>substantial_economic_effect_u := True\<rparr> else r1)
      in (r2, lg))"

section \<open>Partners, waterfall steps and dictionaries\<close>

text \<open>
  A partner and a waterfall step are Python dicts read with \<open>.get(key, default)\<close>; the
  records hold the value each read yields (the default where the key is missing).
  Monetary fields go through \<open>Decimal(str(...))\<close>, which converts exactly. Each of them
  is read only in the branch that uses it, except the \<open>amount\<close> of a step: the manager
  converts it for every step, before it looks at the step type, and nothing uses the
  result. The field \<open>amount\<close> is therefore the outcome of that conversion: \<open>None\<close> when
  \<open>Decimal(str(step.get("amount", 0)))\<close> raises \<open>InvalidOperation\<close>, \<open>Some 0\<close> when the key
  is missing.
\<close>

record partner =
  partner_id :: string
  partner_type :: string
  capital_contributed :: decimal
  ownership_percentage :: decimal
  receives_preferred_return :: bool
  receives_promote :: bool
  current_capital_balance :: decimal

record waterfall_step =
  step_type :: string
  amount :: "decimal option"
  rate :: decimal
  percentage :: decimal

text \<open>A \<open>Dict[str, Decimal]\<close> is an association list in insertion order; assigning to a
  key that is present keeps its place.\<close>

type_synonym money_dict = "(string \<times> decimal) list"

definition dict_get :: "money_dict \<Rightarrow> string \<Rightarrow> decimal" where
  "dict_get d k = (case map_of d k of Some v \<Rightarrow> v | None \<Rightarrow> 0)"

text \<open>\<open>d[k] += v\<close>. Every key used this way is a partner id, and the dict was built
  from the same partner list, so the key is present.\<close>

definition dict_add :: "money_dict \<Rightarrow> string \<Rightarrow> decimal \<Rightarrow> money_dict" where
  "dict_add d k v = AList.update k (dadd (dict_get d k) v) d"

text \<open>\<open>{p["partner_id"]: Decimal('0') for p in partners}\<close>\<close>

definition zero_dict :: "partner list \<Rightarrow> money_dict" where
  "zero_dict partners = foldl (\<lambda>d p. AList.update (partner_id p) 0 d) [] partners"

definition dict_values :: "money_dict \<Rightarrow> decimal list" where
  "dict_values d = map snd d"

text \<open>The state of a waterfall: the per-partner running totals and the remaining pool.\<close>

type_synonym wstate = "money_dict \<times> decimal"

section \<open>\<open>tax_calculations.calculate_liquidation_proceeds\<close>\<close>

fun return_of_capital :: "partner list \<Rightarrow> wstate \<Rightarrow> wstate" where
  "return_of_capital [] st = st"
| "return_of_capital (p # ps) (partner_proceeds, remaining_proceeds) =
     (if remaining_proceeds \<le> 0 then (partner_proceeds, remaining_proceeds)
      else let unreturned_capital =
                 dsub (capital_contributed p) (dict_get partner_proceeds (partner_id p))
           in if 0 < unreturned_capital
              then let distribution = min unreturned_capital remaining_proceeds
                   in return_of_capital ps
                        (dict_add partner_proceeds (partner_id p) distribution,
                         dsub remaining_proceeds distribution)
              else return_of_capital ps (partner_proceeds, remaining_proceeds))"

fun preferred_return :: "decimal \<Rightarrow> partner list \<Rightarrow> wstate \<Rightarrow> wstate" where
  "preferred_return preferred_rate [] st = st"
| "preferred_return preferred_rate (p # ps) (partner_proceeds, remaining_proceeds) =
     (if remaining_proceeds \<le> 0 then (partner_proceeds, remaining_proceeds)
      else if receives_preferred_return p
           then let preferred = dmul (capital_contributed p) preferred_rate;
                    distribution = min preferred remaining_proceeds
                in preferred_return preferred_rate ps
                     (dict_add partner_proceeds (partner_id p) distribution,
                      dsub remaining_proceeds distribution)
           else preferred_return preferred_rate ps (partner_proceeds, remaining_proceeds))"

text \<open>The partner loop of the \<open>pro_rata\<close> branch; \<open>remaining_proceeds\<close> is not changed
  inside the loop.\<close>

fun pro_rata_shares :: "decimal \<Rightarrow> decimal \<Rightarrow> partner list \<Rightarrow> money_dict \<Rightarrow> money_dict" where
  "pro_rata_shares total_ownership remaining_proceeds [] partner_proceeds = partner_proceeds"
| "pro_rata_shares total_ownership remaining_proceeds (p # ps) partner_proceeds =
     (let pro_rata_share = ddiv (ownership_percentage p) total_ownership;
          distribution = dmul remaining_proceeds pro_rata_share
      in pro_rata_shares total_ownership remaining_proceeds ps
           (dict_add partner_proceeds (partner_id p) distribution))"

definition pro_rata :: "partner list \<Rightarrow> wstate \<Rightarrow> wstate" where
  "pro_rata partners st =
     (let total_ownership = dsum (map ownership_percentage partners)
      in if 0 < total_ownership
         then (pro_rata_shares total_ownership (snd st) partners (fst st), 0)
         else st)"

definition apply_step :: "partner list \<Rightarrow> waterfall_step \<Rightarrow> wstate \<Rightarrow> wstate" where
  "apply_step partners step st =
     (if step_type step = ''return_of_capital'' then return_of_capital partners st
      else if step_type step = ''preferred_return'' then preferred_return (rate step) partners st
      else if step_type step = ''pro_rata'' then pro_rata partners st
      else st)"

fun waterfall_loop :: "partner list \<Rightarrow> waterfall_step list \<Rightarrow> wstate \<Rightarrow> wstate" where
  "waterfall_loop partners [] st = st"
| "waterfall_loop partners (step # steps) (partner_proceeds, remaining_proceeds) =
     (if remaining_proceeds \<le> 0 then (partner_proceeds, remaining_proceeds)
      else waterfall_loop partners steps
             (apply_step partners step (partner_proceeds, remaining_proceeds)))"

text \<open>The final loop rounds every entry in place; the first entry that does not fit
  raises.\<close>

fun quantize_all :: "(decimal \<Rightarrow> error + decimal) \<Rightarrow> money_dict \<Rightarrow> error + money_dict" where
  "quantize_all qz [] = Inr []"
| "quantize_all qz ((k, v) # rest) =
     (case qz v of
        Inl e \<Rightarrow> Inl e
      | Inr v' \<Rightarrow> (case quantize_all qz rest of
                     Inl e \<Rightarrow> Inl e
                   | Inr rest' \<Rightarrow> Inr ((k, v') # rest')))"

text \<open>The state when the step loop ends: the totals before rounding, and the local
  variable \<open>remaining_proceeds\<close>, which the function does not return.\<close>

definition liquidation_state :: "decimal \<Rightarrow> waterfall_step list \<Rightarrow> partner list \<Rightarrow> wstate" where
  "liquidation_state total_proceeds waterfall_steps partners =
     waterfall_loop partners waterfall_steps (zero_dict partners, total_proceeds)"

definition calculate_liquidation_proceeds ::
  "decimal \<Rightarrow> waterfall_step list \<Rightarrow> partner list \<Rightarrow> error + money_dict" where
  "calculate_liquidation_proceeds total_proceeds waterfall_steps partners =
     quantize_all quantize_half_up
       (fst (liquidation_state total_proceeds waterfall_steps partners))"

section \<open>\<open>CapitalAccountManager._model_liquidation_distribution\<close>\<close>

fun m_return_of_capital :: "partner list \<Rightarrow> wstate \<Rightarrow> wstate" where
  "m_return_of_capital [] st = st"
| "m_return_of_capital (p # ps) (partner_distributions, remaining_proceeds) =
     (let distribution = min (capital_contributed p) remaining_proceeds;
          partner_distributions' = dict_add partner_distributions (partner_id p) distribution;
          remaining_proceeds' = dsub remaining_proceeds distribution
      in if remaining_proceeds' \<le> 0 then (partner_distributions', remaining_proceeds')
         else m_return_of_capital ps (partner_distributions', remaining_proceeds'))"

fun m_preferred_return :: "decimal \<Rightarrow> partner list \<Rightarrow> wstate \<Rightarrow> wstate" where
  "m_preferred_return preferred_rate [] st = st"
| "m_preferred_return preferred_rate (p # ps) (partner_distributions, remaining_proceeds) =
     (if partner_type p = ''limited''
      then let preferred = dmul (capital_contributed p) preferred_rate;
               distribution = min preferred remaining_proceeds
           in m_preferred_return preferred_rate ps
                (dict_add partner_distributions (partner_id p) distribution,
                 dsub remaining_proceeds distribution)
      else m_preferred_return preferred_rate ps (partner_distributions, remaining_proceeds))"

text \<open>The \<open>catch_up\<close> and \<open>promote\<close> loops differ only in which partners take part.\<close>

fun m_percentage_of_remaining ::
  "(partner \<Rightarrow> bool) \<Rightarrow> decimal \<Rightarrow> partner list \<Rightarrow> wstate \<Rightarrow> wstate" where
  "m_percentage_of_remaining eligible pct [] st = st"
| "m_percentage_of_remaining eligible pct (p # ps) (partner_distributions, remaining_proceeds) =
     (if eligible p
      then let amount = dmul remaining_proceeds pct
           in m_percentage_of_remaining eligible pct ps
                (dict_add partner_distributions (partner_id p) amount,
                 dsub remaining_proceeds amount)
      else m_percentage_of_remaining eligible pct ps (partner_distributions, remaining_proceeds))"

fun m_pro_rata_shares :: "decimal \<Rightarrow> decimal \<Rightarrow> partner list \<Rightarrow> money_dict \<Rightarrow> money_dict" where
  "m_pro_rata_shares total_interests remaining_proceeds [] partner_distributions =
     partner_distributions"
| "m_pro_rata_shares total_interests remaining_proceeds (p # ps) partner_distributions =
     (let pro_rata_share =
            (if 0 < total_interests then ddiv (ownership_percentage p) total_interests else 0);
          distribution = dmul remaining_proceeds pro_rata_share
      in m_pro_rata_shares total_interests remaining_proceeds ps
           (dict_add partner_distributions (partner_id p) distribution))"

definition m_apply_step :: "partner list \<Rightarrow> waterfall_step \<Rightarrow> wstate \<Rightarrow> wstate" where
  "m_apply_step partners step st =
     (if step_type step = ''return_of_capital'' then m_return_of_capital partners st
      else if step_type step = ''preferred_return''
           then m_preferred_return (rate step) partners st
      else if step_type step = ''catch_up''
           then m_percentage_of_remaining (\<lambda>p. partner_type p = ''general'')
                  (ddiv (percentage step) 100) partners st
      else if step_type step = ''promote''
           then m_percentage_of_remaining receives_promote
                  (ddiv (percentage step) 100) partners st
      else if step_type step = ''pro_rata''
           then (m_pro_rata_shares (dsum (map ownership_percentage partners)) (snd st)
                   partners (fst st), snd st)
      else st)"

text \<open>The step loop converts \<open>step_amount\<close> first, which may raise, and tests
  \<open>remaining_proceeds <= 0\<close> after each step, not before.\<close>

fun m_waterfall_loop ::
  "partner list \<Rightarrow> waterfall_step list \<Rightarrow> wstate \<Rightarrow> error + wstate" where
  "m_waterfall_loop partners [] st = Inr st"
| "m_waterfall_loop partners (step # steps) st =
     (case amount step of
        None \<Rightarrow> Inl InvalidOperation
      | Some step_amount \<Rightarrow>
          (let st' = m_apply_step partners step st
           in if snd st' \<le> 0 then Inr st' else m_waterfall_loop partners steps st'))"

record liquidation_analysis =
  total_proceeds :: decimal
  partner_distributions :: money_dict
  waterfall_steps_processed :: nat
  remaining_proceeds :: decimal

text \<open>\<open>waterfall_steps\<close> is \<open>agreement_terms.get("distribution_waterfall", [])\<close> and
  \<open>total_fmv\<close> is \<open>asset_values.get("total_fair_market_value", 0)\<close>. An exception is
  logged and raised again.\<close>

definition model_liquidation_distribution ::
  "partner list \<Rightarrow> waterfall_step list \<Rightarrow> decimal \<Rightarrow> error + liquidation_analysis" where
  "model_liquidation_distribution partners waterfall_steps total_fmv =
     (case m_waterfall_loop partners waterfall_steps (zero_dict partners, total_fmv) of
        Inl e \<Rightarrow> Inl e
      | Inr st \<Rightarrow>
          Inr \<lparr>total_proceeds = total_fmv,
               partner_distributions = fst st,
               waterfall_steps_processed = length waterfall_steps,
               remaining_proceeds = snd st\<rparr>)"

text \<open>An invariant of the waterfall on whole-cent inputs: every running total
  and the remaining pool are non-negative whole cents, and together they make up the
  proceeds.\<close>

definition conserving :: "decimal \<Rightarrow> wstate \<Rightarrow> bool" where
  "conserving tp st \<longleftrightarrow>
     (\<forall>v \<in> set (dict_values (fst st)). is_cents v \<and> 0 \<le> v)
     \<and> is_cents (snd st) \<and> 0 \<le> snd st
     \<and> sum_list (dict_values (fst st)) + snd st = tp"

section \<open>Concrete inputs\<close>

text \<open>A limited partner who receives the preferred return, and a waterfall step without
  an \<open>amount\<close> key, with the fields that the examples vary.\<close>

definition ex_partner :: "string \<Rightarrow> decimal \<Rightarrow> decimal \<Rightarrow> partner" where
  "ex_partner pid cap own =
     \<lparr>partner_id = pid, partner_type = ''limited'', capital_contributed = cap,
      ownership_percentage = own, receives_preferred_return = True,
      receives_promote = False, current_capital_balance = 0\<rparr>"

definition ex_step :: "string \<Rightarrow> decimal \<Rightarrow> waterfall_step" where
  "ex_step ty r = \<lparr>step_type = ty, amount = Some 0, rate = r, percentage = 0\<rparr>"

section \<open>The \<open>return_of_capital\<close> step as the specification words it\<close>

text \<open>
  Written from the specification, for comparison with the code: for partners in their
  given order, distribute \<open>min(capital_contributed - already distributed to this partner
  within this step category, remaining)\<close>, decrement \<open>remaining\<close> after each partner, and
  stop once \<open>remaining\<close> reaches zero. \<open>category\<close> holds what earlier \<open>return_of_capital\<close>
  steps gave each partner.
\<close>

fun spec_return_of_capital :: "money_dict \<Rightarrow> partner list \<Rightarrow> wstate \<Rightarrow> wstate" where
  "spec_return_of_capital category [] st = st"
| "spec_return_of_capital category (p # ps) (per_partner, remaining) =
     (let distribution =
            min (dsub (capital_contributed p) (dict_get category (partner_id p))) remaining;
          per_partner' = dict_add per_partner (partner_id p) distribution;
          remaining' = dsub remaining distribution
      in if remaining' = 0 then (per_partner', remaining')
         else spec_return_of_capital category ps (per_partner', remaining'))"

section \<open>Waterfalls on which the two implementations can be compared\<close>

text \<open>
  A state of either loop is \<open>settled\<close> for a partner list when every partner has an entry,
  every entry and the pool are results of the decimal context (at most 28 significant
  digits), and the pool is not negative.
\<close>

definition settled :: "partner list \<Rightarrow> wstate \<Rightarrow> bool" where
  "settled ps st \<longleftrightarrow>
     (\<forall>p \<in> set ps. map_of (fst st) (partner_id p) \<noteq> None)
     \<and> (\<forall>v \<in> set (dict_values (fst st)). ctx_round v = v)
     \<and> ctx_round (snd st) = snd st \<and> 0 \<le> snd st"

text \<open>
  The conditions on one step; \<open>paid\<close> says that an earlier \<open>return_of_capital\<close> or
  \<open>preferred_return\<close> step has run.

  \<^item> The \<open>amount\<close> of the step converts to a decimal.
  \<^item> A \<open>return_of_capital\<close> step comes before any other paying step, the partner ids are
    distinct, and no capital contribution is negative or has more than 28 significant
    digits.
  \<^item> On a \<open>preferred_return\<close> step the partners flagged \<open>receives_preferred_return\<close> are
    the limited partners, and none of them has a negative preferred return.
  \<^item> On a \<open>catch_up\<close> step no partner is a general partner; on a \<open>promote\<close> step no
    partner receives the promote.
\<close>

definition comparable_step :: "partner list \<Rightarrow> bool \<Rightarrow> waterfall_step \<Rightarrow> bool" where
  "comparable_step ps paid s \<longleftrightarrow>
     amount s \<noteq> None
     \<and> (step_type s = ''return_of_capital'' \<longrightarrow>
          \<not> paid \<and> distinct (map partner_id ps)
          \<and> (\<forall>p \<in> set ps. 0 \<le> capital_contributed p
                 \<and> ctx_round (capital_contributed p) = capital_contributed p))
     \<and> (step_type s = ''preferred_return'' \<longrightarrow>
          (\<forall>p \<in> set ps. receives_preferred_return p = (partner_type p = ''limited''))
          \<and> (\<forall>p \<in> set ps. receives_preferred_return p \<longrightarrow> 0 \<le> capital_contributed p * rate s))
     \<and> (step_type s = ''catch_up'' \<longrightarrow> (\<forall>p \<in> set ps. partner_type p \<noteq> ''general''))
     \<and> (step_type s = ''promote'' \<longrightarrow> (\<forall>p \<in> set ps. \<not> receives_promote p))"

text \<open>The conditions on a step list: each step is comparable, and a \<open>pro_rata\<close> step is
  the last step.\<close>

fun comparable_steps :: "partner list \<Rightarrow> bool \<Rightarrow> waterfall_step list \<Rightarrow> bool" where
  "comparable_steps ps paid [] = True"
| "comparable_steps ps paid (s # ss) =
     (comparable_step ps paid s
      \<and> (step_type s = ''pro_rata'' \<longrightarrow> ss = [])
      \<and> comparable_steps ps
           (paid \<or> step_type s = ''return_of_capital'' \<or> step_type s = ''preferred_return'') ss)"

section \<open>Runs in which the decimal context rounds nothing\<close>

text \<open>What the conservation property adds up: the per-partner amounts and the remaining
  pool.\<close>

definition distributed_and_remaining :: "wstate \<Rightarrow> decimal" where
  "distributed_and_remaining st = sum_list (dict_values (fst st)) + snd st"

text \<open>
  Every payment is \<open>amounts[partner_id] += distribution; remaining -= distribution\<close>. The
  payment is exact when the decimal context rounds neither result, that is, when the sum
  and the difference have at most 28 significant digits.
\<close>

definition exact_transfer :: "wstate \<Rightarrow> string \<Rightarrow> decimal \<Rightarrow> bool" where
  "exact_transfer st k d \<longleftrightarrow>
     dadd (dict_get (fst st) k) d = dict_get (fst st) k + d \<and> dsub (snd st) d = snd st - d"

text \<open>
  The predicates below follow the loops of \<open>calculate_liquidation_proceeds\<close> branch by
  branch and say that every payment the loop makes is exact. For the \<open>pro_rata\<close> step,
  whose payments are not taken from the pool one by one, they say that the total
  ownership, every share and every product are exact as well.
\<close>

fun return_of_capital_exact :: "partner list \<Rightarrow> wstate \<Rightarrow> bool" where
  "return_of_capital_exact [] st = True"
| "return_of_capital_exact (p # ps) (partner_proceeds, remaining) =
     (if remaining \<le> 0 then True
      else let unreturned_capital =
                 dsub (capital_contributed p) (dict_get partner_proceeds (partner_id p))
           in if 0 < unreturned_capital
              then let distribution = min unreturned_capital remaining
                   in exact_transfer (partner_proceeds, remaining) (partner_id p)
                        distribution
                      \<and> return_of_capital_exact ps
                          (dict_add partner_proceeds (partner_id p) distribution,
                           dsub remaining distribution)
              else return_of_capital_exact ps (partner_proceeds, remaining))"

fun preferred_return_exact :: "decimal \<Rightarrow> partner list \<Rightarrow> wstate \<Rightarrow> bool" where
  "preferred_return_exact preferred_rate [] st = True"
| "preferred_return_exact preferred_rate (p # ps) (partner_proceeds, remaining) =
     (if remaining \<le> 0 then True
      else if receives_preferred_return p
           then let preferred = dmul (capital_contributed p) preferred_rate;
                    distribution = min preferred remaining
                in exact_transfer (partner_proceeds, remaining) (partner_id p)
                     distribution
                   \<and> preferred_return_exact preferred_rate ps
                       (dict_add partner_proceeds (partner_id p) distribution,
                        dsub remaining distribution)
           else preferred_return_exact preferred_rate ps (partner_proceeds, remaining))"

fun pro_rata_shares_exact :: "decimal \<Rightarrow> decimal \<Rightarrow> partner list \<Rightarrow> money_dict \<Rightarrow> bool" where
  "pro_rata_shares_exact total_ownership remaining [] partner_proceeds = True"
| "pro_rata_shares_exact total_ownership remaining (p # ps) partner_proceeds =
     (let pro_rata_share = ddiv (ownership_percentage p) total_ownership;
          distribution = dmul remaining pro_rata_share
      in pro_rata_share = ownership_percentage p / total_ownership
         \<and> distribution = remaining * pro_rata_share
         \<and> dadd (dict_get partner_proceeds (partner_id p)) distribution
             = dict_get partner_proceeds (partner_id p) + distribution
         \<and> pro_rata_shares_exact total_ownership remaining ps
             (dict_add partner_proceeds (partner_id p) distribution))"

definition pro_rata_exact :: "partner list \<Rightarrow> wstate \<Rightarrow> bool" where
  "pro_rata_exact partners st =
     (let total_ownership = dsum (map ownership_percentage partners)
      in if 0 < total_ownership
         then total_ownership = sum_list (map ownership_percentage partners)
              \<and> pro_rata_shares_exact total_ownership (snd st) partners (fst st)
         else True)"

definition apply_step_exact :: "partner list \<Rightarrow> waterfall_step \<Rightarrow> wstate \<Rightarrow> bool" where
  "apply_step_exact partners step st =
     (if step_type step = ''return_of_capital'' then return_of_capital_exact partners st
      else if step_type step = ''preferred_return''
           then preferred_return_exact (rate step) partners st
      else if step_type step = ''pro_rata'' then pro_rata_exact partners st
      else True)"

fun waterfall_exact :: "partner list \<Rightarrow> waterfall_step list \<Rightarrow> wstate \<Rightarrow> bool" where
  "waterfall_exact partners [] st = True"
| "waterfall_exact partners (step # steps) (partner_proceeds, remaining) =
     (if remaining \<le> 0 then True
      else apply_step_exact partners step (partner_proceeds, remaining)
           \<and> waterfall_exact partners steps
               (apply_step partners step (partner_proceeds, remaining)))"

text \<open>The same for the loops of \<open>_model_liquidation_distribution\<close>, on the steps that take
  their payments from the pool.\<close>

fun m_return_of_capital_exact :: "partner list \<Rightarrow> wstate \<Rightarrow> bool" where
  "m_return_of_capital_exact [] st = True"
| "m_return_of_capital_exact (p # ps) (distributions, remaining) =
     (let distribution = min (capital_contributed p) remaining;
          distributions' = dict_add distributions (partner_id p) distribution;
          remaining' = dsub remaining distribution
      in exact_transfer (distributions, remaining) (partner_id p) distribution
         \<and> (if remaining' \<le> 0 then True
             else m_return_of_capital_exact ps (distributions', remaining')))"

fun m_preferred_return_exact :: "decimal \<Rightarrow> partner list \<Rightarrow> wstate \<Rightarrow> bool" where
  "m_preferred_return_exact preferred_rate [] st = True"
| "m_preferred_return_exact preferred_rate (p # ps) (distributions, remaining) =
     (if partner_type p = ''limited''
      then let preferred = dmul (capital_contributed p) preferred_rate;
               distribution = min preferred remaining
           in exact_transfer (distributions, remaining) (partner_id p)
                distribution
              \<and> m_preferred_return_exact preferred_rate ps
                  (dict_add distributions (partner_id p) distribution,
                   dsub remaining distribution)
      else m_preferred_return_exact preferred_rate ps
             (distributions, remaining))"

fun m_percentage_of_remaining_exact ::
  "(partner \<Rightarrow> bool) \<Rightarrow> decimal \<Rightarrow> partner list \<Rightarrow> wstate \<Rightarrow> bool" where
  "m_percentage_of_remaining_exact eligible pct [] st = True"
| "m_percentage_of_remaining_exact eligible pct (p # ps)
     (distributions, remaining) =
     (if eligible p
      then let amount = dmul remaining pct
           in exact_transfer (distributions, remaining) (partner_id p) amount
              \<and> m_percentage_of_remaining_exact eligible pct ps
                  (dict_add distributions (partner_id p) amount,
                   dsub remaining amount)
      else m_percentage_of_remaining_exact eligible pct ps
             (distributions, remaining))"

definition m_apply_step_exact :: "partner list \<Rightarrow> waterfall_step \<Rightarrow> wstate \<Rightarrow> bool" where
  "m_apply_step_exact partners step st =
     (if step_type step = ''return_of_capital'' then m_return_of_capital_exact partners st
      else if step_type step = ''preferred_return''
           then m_preferred_return_exact (rate step) partners st
      else if step_type step = ''catch_up''
           then m_percentage_of_remaining_exact (\<lambda>p. partner_type p = ''general'')
                  (ddiv (percentage step) 100) partners st
      else if step_type step = ''promote''
           then m_percentage_of_remaining_exact receives_promote
                  (ddiv (percentage step) 100) partners st
      else True)"

fun m_waterfall_exact :: "partner list \<Rightarrow> waterfall_step list \<Rightarrow> wstate \<Rightarrow> bool" where
  "m_waterfall_exact partners [] st = True"
| "m_waterfall_exact partners (step # steps) st =
     (m_apply_step_exact partners step st
      \<and> (let st' = m_apply_step partners step st
          in if snd st' \<le> 0 then True else m_waterfall_exact partners steps st'))"

section \<open>Properties of decimal rounding\<close>

lemma digits10_pos: "0 < digits10 n"
  by (subst digits10.simps) simp

lemma digits10_bounds:
  "1 \<le> n \<Longrightarrow> 10 ^ (digits10 n - 1) \<le> n \<and> n < 10 ^ digits10 n"
proof (induction n rule: digits10.induct)
  case (1 n)
  show ?case
  proof (cases "n < 10")
    case True
    then show ?thesis using "1.prems" by (simp add: digits10.simps)
  next
    case False
    then have "1 \<le> n div 10" by simp
    with "1.IH" False have ih: "10 ^ (digits10 (n div 10) - 1) \<le> n div 10"
      "n div 10 < 10 ^ digits10 (n div 10)" by simp_all
    have d: "digits10 n = Suc (digits10 (n div 10))"
      using False by (subst digits10.simps) simp
    have "10 * 10 ^ (digits10 (n div 10) - 1) \<le> 10 * (n div 10)" using ih(1) by simp
    also have "\<dots> \<le> n" by simp
    finally have "10 * 10 ^ (digits10 (n div 10) - 1) \<le> n" .
    moreover obtain k where k: "digits10 (n div 10) = Suc k"
      using digits10_pos [of "n div 10"] by (cases "digits10 (n div 10)") simp_all
    ultimately have lo: "10 ^ (digits10 n - 1) \<le> n" by (simp add: d)
    have "n div 10 + 1 \<le> 10 ^ digits10 (n div 10)" using ih(2) by simp
    then have "10 * (n div 10 + 1) \<le> 10 * 10 ^ digits10 (n div 10)" by simp
    moreover have "n < 10 * (n div 10 + 1)" by simp
    ultimately have "n < 10 ^ digits10 n" by (simp add: d)
    with lo show ?thesis by simp
  qed
qed

lemma scale10_powi: "scale10 x e = x * 10 powi e"
  by (simp add: scale10_def power_int_def field_simps)

lemma p10_less_imp: "(10::rat) powi a < 10 powi b \<Longrightarrow> a < b"
  using power_int_increasing [of b a "10::rat"] by (cases "a < b") simp_all

lemma p10_neg: "(10::rat) powi (- int n) = 1 / 10 ^ n"
  by (simp add: power_int_minus inverse_eq_divide)

lemma adjusted_bounds:
  assumes "x \<noteq> 0"
  shows "10 powi (adjusted x) \<le> \<bar>x\<bar>" and "\<bar>x\<bar> < 10 powi (adjusted x + 1)"
proof -
  have "10 powi (adjusted x) \<le> \<bar>x\<bar> \<and> \<bar>x\<bar> < 10 powi (adjusted x + 1)"
  proof (cases "1 \<le> \<bar>x\<bar>")
    case True
    define n where "n = \<lfloor>\<bar>x\<bar>\<rfloor>"
    have n1: "1 \<le> n" using True by (simp add: n_def le_floor_iff)
    obtain k where k: "digits10 n = Suc k"
      using digits10_pos [of n] by (cases "digits10 n") simp_all
    have adj: "adjusted x = int k"
      using True by (simp add: adjusted_def n_def [symmetric] k)
    from digits10_bounds [OF n1] have b: "10 ^ k \<le> n" "n < 10 ^ Suc k"
      by (simp_all add: k)
    have "(of_int (10 ^ k) :: rat) \<le> of_int n" using b(1) by (simp only: of_int_le_iff)
    also have "\<dots> \<le> \<bar>x\<bar>" by (simp add: n_def)
    finally have lo: "10 powi (adjusted x) \<le> \<bar>x\<bar>" by (simp add: adj)
    have "n + 1 \<le> 10 ^ Suc k" using b(2) by simp
    then have "(of_int (n + 1) :: rat) \<le> of_int (10 ^ Suc k)" by (simp only: of_int_le_iff)
    moreover have "\<bar>x\<bar> < of_int (n + 1)" unfolding n_def by linarith
    ultimately have "\<bar>x\<bar> < 10 ^ Suc k" by simp
    then have "\<bar>x\<bar> < 10 powi (adjusted x + 1)"
      by (simp add: adj power_int_add)
    with lo show ?thesis by simp
  next
    case False
    define y where "y = 1 / \<bar>x\<bar>"
    have xpos: "0 < \<bar>x\<bar>" using assms by simp
    have y1: "1 < y" using False xpos by (simp add: y_def)
    define m where "m = \<lceil>y\<rceil> - 1"
    have "y \<le> of_int \<lceil>y\<rceil>" by simp
    then have "1 < (of_int \<lceil>y\<rceil> :: rat)" using y1 by linarith
    then have "1 < \<lceil>y\<rceil>" by simp
    then have m1: "1 \<le> m" by (simp add: m_def)
    obtain k where k: "digits10 m = Suc k"
      using digits10_pos [of m] by (cases "digits10 m") simp_all
    have adj: "adjusted x = - int (Suc k)"
      using False by (simp add: adjusted_def y_def [symmetric] m_def [symmetric] k)
    from digits10_bounds [OF m1] have b: "10 ^ k \<le> m" "m < 10 ^ Suc k"
      by (simp_all add: k)
    have "\<lceil>y\<rceil> \<le> 10 ^ Suc k" using b(2) by (simp add: m_def)
    then have "(of_int \<lceil>y\<rceil> :: rat) \<le> of_int (10 ^ Suc k)" by (simp only: of_int_le_iff)
    then have "(of_int \<lceil>y\<rceil> :: rat) \<le> 10 ^ Suc k" by simp
    then have yle: "y \<le> 10 ^ Suc k" by (rule order_trans [OF le_of_int_ceiling])
    have "(10 ^ k :: rat) \<le> of_int m" using b(1) by simp
    moreover have "of_int m < y" unfolding m_def by linarith
    ultimately have ygt: "10 ^ k < y" by (rule le_less_trans)
    have x_eq: "\<bar>x\<bar> = 1 / y" using xpos by (simp add: y_def)
    have ypos: "0 < y" using y1 by simp
    have "1 / (10 ^ Suc k) \<le> 1 / y"
      using yle ypos by (intro divide_left_mono) simp_all
    then have lo: "10 powi (adjusted x) \<le> \<bar>x\<bar>"
      unfolding adj x_eq p10_neg .
    have "1 / y < 1 / (10 ^ k)"
      using ygt ypos by (intro divide_strict_left_mono) simp_all
    moreover have "10 powi (adjusted x + 1) = (1 :: rat) / 10 ^ k"
    proof -
      have "adjusted x + 1 = - int k" by (simp add: adj)
      then show ?thesis by (simp only: p10_neg)
    qed
    ultimately have "\<bar>x\<bar> < 10 powi (adjusted x + 1)" by (simp add: x_eq)
    with lo show ?thesis by simp
  qed
  then show "10 powi (adjusted x) \<le> \<bar>x\<bar>" and "\<bar>x\<bar> < 10 powi (adjusted x + 1)"
    by simp_all
qed

lemma round_half_even_of_int [simp]: "round_half_even (of_int n) = n"
  by (simp add: round_half_even_def)

lemma round_half_up_of_int [simp]: "round_half_up (of_int n) = n"
proof -
  have "\<lfloor>of_int n + (1 / 2 :: rat)\<rfloor> = n" by (simp add: floor_eq_iff)
  moreover have "\<lfloor>- of_int n + (1 / 2 :: rat)\<rfloor> = - n" by (simp add: floor_eq_iff)
  ultimately show ?thesis by (simp add: round_half_up_def)
qed

text \<open>A value with at most 28 significant digits is not changed by the context.\<close>

lemma ctx_round_exact:
  assumes x: "x = of_int c * 10 powi k" and c: "\<bar>c\<bar> < 10 ^ 28"
  shows "ctx_round x = x"
proof (cases "x = 0")
  case True
  then show ?thesis by (simp add: ctx_round_def)
next
  case False
  define e where "e = adjusted x - 27"
  have "10 powi (adjusted x) \<le> \<bar>x\<bar>" using adjusted_bounds(1) [OF False] .
  also have "\<bar>x\<bar> = of_int \<bar>c\<bar> * 10 powi k"
    by (simp add: x abs_mult power_int_abs)
  also have "\<dots> < 10 ^ 28 * 10 powi k"
  proof -
    have "(of_int \<bar>c\<bar> :: rat) < of_int (10 ^ 28)" using c by (simp only: of_int_less_iff)
    then show ?thesis by simp
  qed
  also have "\<dots> = 10 powi (k + 28)"
    by (simp add: power_int_add)
  finally have "adjusted x < k + 28"
    by (rule p10_less_imp)
  then have ek: "e \<le> k" by (simp add: e_def)
  then obtain j where j: "k - e = int j" using nonneg_int_cases [of "k - e"] by auto
  have "scale10 x (- e) = of_int c * 10 powi (k - e)"
    by (simp add: scale10_powi x power_int_diff power_int_minus field_simps)
  also have "\<dots> = of_int (c * 10 ^ j)" by (simp add: j)
  finally have s: "scale10 x (- e) = of_int (c * 10 ^ j)" .
  have "ctx_round x = scale10 (of_int (c * 10 ^ j)) e"
    using False by (simp add: ctx_round_def Let_def e_def [symmetric] s del: of_int_mult of_int_power)
  also have "\<dots> = of_int c * (10 powi (k - e) * 10 powi e)"
    by (simp add: scale10_powi j)
  also have "\<dots> = x"
    by (simp add: x power_int_add [symmetric])
  finally show ?thesis .
qed

section \<open>Properties of the compliance validators\<close>

lemma check_target_balances_fields:
  "capital_account_maintenance (fst (check_target_balances d q tb (cc, lg)))
     = capital_account_maintenance cc
   \<and> liquidation_consistency (fst (check_target_balances d q tb (cc, lg)))
     = liquidation_consistency cc
   \<and> deficit_restoration_obligation (fst (check_target_balances d q tb (cc, lg)))
     = deficit_restoration_obligation cc"
  by (induction tb arbitrary: cc lg) (auto split: if_splits)

lemma check_target_balances_protected:
  "d \<or> q \<Longrightarrow> check_target_balances d q tb st = st"
  by (induction tb arbitrary: st) (auto split: prod.splits)

lemma check_target_balances_see:
  "substantial_economic_effect (fst (check_target_balances False False tb (cc, lg)))
     = (substantial_economic_effect cc \<and> \<not> (\<exists>b \<in> snd ` set tb. b < 0))"
proof (induction tb arbitrary: cc lg)
  case Nil
  show ?case by simp
next
  case (Cons pb tb)
  obtain p b where pb: "pb = (p, b)" by (cases pb)
  show ?case
    unfolding pb by (cases "b < 0") (simp_all add: Cons.IH)
qed

lemma check_target_balances_log:
  "snd (check_target_balances False False tb (cc, lg))
     = lg @ map (DeficitWithoutProtection \<circ> fst) (filter (\<lambda>pb. snd pb < 0) tb)"
proof (induction tb arbitrary: cc lg)
  case Nil
  show ?case by simp
next
  case (Cons pb tb)
  obtain p b where pb: "pb = (p, b)" by (cases pb)
  show ?case
    unfolding pb by (cases "b < 0") (simp_all add: Cons.IH)
qed

lemma has_unprotected_deficit_protected:
  "d \<or> q \<Longrightarrow> has_unprotected_deficit d q tb = (False, [])"
  by (induction tb) auto

lemma has_unprotected_deficit_flag:
  "fst (has_unprotected_deficit False False tb) = (\<exists>b \<in> snd ` set tb. b < 0)"
  by (induction tb) auto

lemma has_unprotected_deficit_log:
  "snd (has_unprotected_deficit False False tb)
     = map (DeficitWithoutProtection \<circ> fst) (take 1 (filter (\<lambda>pb. snd pb < 0) tb))"
  by (induction tb) auto

lemma vac_deficit_restoration_obligation:
  "deficit_restoration_obligation (fst (validate_allocations_compliance al t tb))
     = (has_deficit_restoration_obligation t \<or> has_qualified_income_offset t)"
  unfolding validate_allocations_compliance_def Let_def
  by (simp add: check_target_balances_fields)

lemma vac_fixed_flags:
  "capital_account_maintenance (fst (validate_allocations_compliance al t tb))
   \<and> liquidation_consistency (fst (validate_allocations_compliance al t tb))"
  unfolding validate_allocations_compliance_def Let_def
  by (simp add: check_target_balances_fields)

lemma vac_unprotected:
  assumes "\<exists>b \<in> snd ` set tb. b < 0"
    and "\<not> has_deficit_restoration_obligation t" and "\<not> has_qualified_income_offset t"
  shows "\<not> substantial_economic_effect (fst (validate_allocations_compliance al t tb))"
    and "snd (validate_allocations_compliance al t tb)
           = LacksDroQio # map (DeficitWithoutProtection \<circ> fst) (filter (\<lambda>pb. snd pb < 0) tb)"
  using assms unfolding validate_allocations_compliance_def Let_def
  by (auto simp: check_target_balances_see check_target_balances_log)

lemma vac_protected:
  "has_deficit_restoration_obligation t \<or> has_qualified_income_offset t \<Longrightarrow>
     substantial_economic_effect (fst (validate_allocations_compliance al t tb))"
  unfolding validate_allocations_compliance_def Let_def
  by (auto simp: check_target_balances_protected)

lemma vsee_deficit_restoration:
  "deficit_restoration (fst (validate_substantial_economic_effect al tb t))
     = (has_deficit_restoration_obligation t \<or> has_qualified_income_offset t)"
  unfolding validate_substantial_economic_effect_def Let_def
  by (simp split: prod.splits)

lemma vsee_fixed_flags:
  "capital_account_maintenance_u (fst (validate_substantial_economic_effect al tb t))
   \<and> liquidation_consistency_u (fst (validate_substantial_economic_effect al tb t))"
  unfolding validate_substantial_economic_effect_def Let_def
  by (simp split: prod.splits)

lemma vsee_unprotected:
  assumes "\<exists>b \<in> snd ` set tb. b < 0"
    and "\<not> has_deficit_restoration_obligation t" and "\<not> has_qualified_income_offset t"
  shows "\<not> substantial_economic_effect_u (fst (validate_substantial_economic_effect al tb t))"
    and "snd (validate_substantial_economic_effect al tb t)
           = [DeficitWithoutProtection (fst (hd (filter (\<lambda>pb. snd pb < 0) tb)))]"
proof -
  have fl: "fst (has_unprotected_deficit False False tb)"
    using assms(1) by (simp add: has_unprotected_deficit_flag)
  have "filter (\<lambda>pb. snd pb < 0) tb \<noteq> []"
    using assms(1) by (auto simp: filter_empty_conv)
  then have lg: "snd (has_unprotected_deficit False False tb)
                   = [DeficitWithoutProtection (fst (hd (filter (\<lambda>pb. snd pb < 0) tb)))]"
    by (cases "filter (\<lambda>pb. snd pb < 0) tb") (simp_all add: has_unprotected_deficit_log)
  obtain f l where hu: "has_unprotected_deficit False False tb = (f, l)"
    by (cases "has_unprotected_deficit False False tb")
  show "\<not> substantial_economic_effect_u (fst (validate_substantial_economic_effect al tb t))"
    using assms(2,3) fl unfolding validate_substantial_economic_effect_def Let_def
    by (simp add: hu)
  show "snd (validate_substantial_economic_effect al tb t)
          = [DeficitWithoutProtection (fst (hd (filter (\<lambda>pb. snd pb < 0) tb)))]"
    using assms(2,3) lg unfolding validate_substantial_economic_effect_def Let_def
    by (simp add: hu)
qed

lemma vsee_protected:
  "has_deficit_restoration_obligation t \<or> has_qualified_income_offset t \<Longrightarrow>
     substantial_economic_effect_u (fst (validate_substantial_economic_effect al tb t))"
  unfolding validate_substantial_economic_effect_def Let_def
  by (auto simp: has_unprotected_deficit_protected split: prod.splits)

text \<open>
  Claim C6. The manager's validator returns \<open>deficit_restoration_obligation\<close> equal to
  \<open>has_dro OR has_qio\<close>. If some target balance is negative while neither flag is set,
  \<open>substantial_economic_effect\<close> is false and a warning naming each partner with a negative
  balance is logged, in the order of the balances; with \<open>has_dro\<close> set,
  \<open>substantial_economic_effect\<close> is true whatever the balances are. The standalone validator
  has the same two flags under the keys \<open>deficit_restoration\<close> and
  \<open>substantial_economic_effect\<close>, and logs the first such partner.
\<close>

theorem compliance_validation_rules:
  "deficit_restoration_obligation (fst (validate_allocations_compliance al t tb))
     = (has_deficit_restoration_obligation t \<or> has_qualified_income_offset t)
   \<and> ((\<exists>b \<in> snd ` set tb. b < 0)
        \<and> \<not> has_deficit_restoration_obligation t \<and> \<not> has_qualified_income_offset t \<longrightarrow>
        \<not> substantial_economic_effect (fst (validate_allocations_compliance al t tb))
        \<and> snd (validate_allocations_compliance al t tb)
            = LacksDroQio
              # map (DeficitWithoutProtection \<circ> fst) (filter (\<lambda>pb. snd pb < 0) tb))
   \<and> (has_deficit_restoration_obligation t \<longrightarrow>
        substantial_economic_effect (fst (validate_allocations_compliance al t tb)))
   \<and> deficit_restoration (fst (validate_substantial_economic_effect al tb t))
     = (has_deficit_restoration_obligation t \<or> has_qualified_income_offset t)
   \<and> ((\<exists>b \<in> snd ` set tb. b < 0)
        \<and> \<not> has_deficit_restoration_obligation t \<and> \<not> has_qualified_income_offset t \<longrightarrow>
        \<not> substantial_economic_effect_u (fst (validate_substantial_economic_effect al tb t))
        \<and> snd (validate_substantial_economic_effect al tb t)
            = [DeficitWithoutProtection (fst (hd (filter (\<lambda>pb. snd pb < 0) tb)))])
   \<and> (has_deficit_restoration_obligation t \<longrightarrow>
        substantial_economic_effect_u (fst (validate_substantial_economic_effect al tb t)))"
  using vac_deficit_restoration_obligation [of al t tb] vac_unprotected [of tb t al]
    vac_protected [of t al tb] vsee_deficit_restoration [of al tb t]
    vsee_unprotected [of tb t al] vsee_protected [of t al tb]
  by blast

theorem compliance_validation_rules_witness:
  "\<not> substantial_economic_effect
       (fst (validate_allocations_compliance []
          \<lparr>has_deficit_restoration_obligation = False, has_qualified_income_offset = False\<rparr>
          [(''A'', - (1 / 100))]))
   \<and> snd (validate_allocations_compliance []
          \<lparr>has_deficit_restoration_obligation = False, has_qualified_income_offset = False\<rparr>
          [(''A'', - (1 / 100))])
       = [LacksDroQio, DeficitWithoutProtection ''A'']
   \<and> substantial_economic_effect
       (fst (validate_allocations_compliance []
          \<lparr>has_deficit_restoration_obligation = True, has_qualified_income_offset = False\<rparr>
          [(''A'', - (1 / 100))]))
   \<and> \<not> substantial_economic_effect_u
       (fst (validate_substantial_economic_effect [] [(''A'', - (1 / 100))]
          \<lparr>has_deficit_restoration_obligation = False, has_qualified_income_offset = False\<rparr>))
   \<and> substantial_economic_effect_u
       (fst (validate_substantial_economic_effect [] [(''A'', - (1 / 100))]
          \<lparr>has_deficit_restoration_obligation = True, has_qualified_income_offset = False\<rparr>))"
  using compliance_validation_rules [of "[]"
      "\<lparr>has_deficit_restoration_obligation = False, has_qualified_income_offset = False\<rparr>"
      "[(''A'', - (1 / 100))]"]
    compliance_validation_rules [of "[]"
      "\<lparr>has_deficit_restoration_obligation = True, has_qualified_income_offset = False\<rparr>"
      "[(''A'', - (1 / 100))]"]
  by simp

text \<open>
  Claim C10. Neither validator reads its \<open>allocations\<close> argument: two calls that differ
  only in the allocations return the same result (flags and warnings), and both return
  \<open>capital_account_maintenance\<close> and \<open>liquidation_consistency\<close> true for every input.
\<close>

theorem compliance_independent_of_allocations:
  "validate_allocations_compliance al1 t tb = validate_allocations_compliance al2 t tb
   \<and> validate_substantial_economic_effect al1 tb t = validate_substantial_economic_effect al2 tb t
   \<and> capital_account_maintenance (fst (validate_allocations_compliance al1 t tb))
   \<and> liquidation_consistency (fst (validate_allocations_compliance al1 t tb))
   \<and> capital_account_maintenance_u (fst (validate_substantial_economic_effect al1 tb t))
   \<and> liquidation_consistency_u (fst (validate_substantial_economic_effect al1 tb t))"
  using vac_fixed_flags [of al1 t tb] vsee_fixed_flags [of al1 tb t]
  by (simp add: validate_allocations_compliance_def validate_substantial_economic_effect_def)

lemma is_cents_iff: "is_cents x \<longleftrightarrow> (\<exists>c::int. x = of_int c / 100)"
proof
  assume "is_cents x"
  then have h: "of_int \<lfloor>x * 100\<rfloor> = x * 100" unfolding is_cents_def .
  have "x = x * 100 / 100" by simp
  also have "\<dots> = of_int \<lfloor>x * 100\<rfloor> / 100" by (simp only: h)
  finally show "\<exists>c::int. x = of_int c / 100" ..
next
  assume "\<exists>c::int. x = of_int c / 100"
  then obtain c :: int where "x = of_int c / 100" ..
  then show "is_cents x" by (simp add: is_cents_def)
qed

lemma is_cents_0 [simp]: "is_cents 0"
  by (simp add: is_cents_def)

lemma is_cents_add: "is_cents a \<Longrightarrow> is_cents b \<Longrightarrow> is_cents (a + b)"
proof -
  assume "is_cents a" "is_cents b"
  then obtain c d :: int where "a = of_int c / 100" "b = of_int d / 100"
    by (auto simp: is_cents_iff)
  then have "a + b = of_int (c + d) / 100" by (simp add: add_divide_distrib)
  then show ?thesis unfolding is_cents_iff ..
qed

lemma is_cents_diff: "is_cents a \<Longrightarrow> is_cents b \<Longrightarrow> is_cents (a - b)"
proof -
  assume "is_cents a" "is_cents b"
  then obtain c d :: int where "a = of_int c / 100" "b = of_int d / 100"
    by (auto simp: is_cents_iff)
  then have "a - b = of_int (c - d) / 100" by (simp add: diff_divide_distrib)
  then show ?thesis unfolding is_cents_iff ..
qed

lemma is_cents_min: "is_cents a \<Longrightarrow> is_cents b \<Longrightarrow> is_cents (min a b)"
  by (simp add: min_def)

lemma ctx_round_cents:
  assumes "is_cents x" and "\<bar>x\<bar> < 10 ^ 26"
  shows "ctx_round x = x"
proof -
  from assms(1) obtain c :: int where c: "x = of_int c / 100" by (auto simp: is_cents_iff)
  have "\<bar>of_int c :: rat\<bar> < 10 ^ 28" using assms(2) by (simp add: c)
  then have "(of_int \<bar>c\<bar> :: rat) < of_int (10 ^ 28)" by simp
  then have "\<bar>c\<bar> < 10 ^ 28" by (simp only: of_int_less_iff)
  moreover have "x = of_int c * 10 powi (- 2)"
    by (simp add: c power_int_minus inverse_eq_divide)
  ultimately show ?thesis by (rule ctx_round_exact [rotated])
qed

lemma dadd_cents:
  "is_cents a \<Longrightarrow> is_cents b \<Longrightarrow> \<bar>a + b\<bar> < 10 ^ 26 \<Longrightarrow> dadd a b = a + b"
  by (simp add: dadd_def ctx_round_cents is_cents_add)

lemma dsub_cents:
  "is_cents a \<Longrightarrow> is_cents b \<Longrightarrow> \<bar>a - b\<bar> < 10 ^ 26 \<Longrightarrow> dsub a b = a - b"
  by (simp add: dsub_def ctx_round_cents is_cents_diff)

lemma dmul_cents:
  "is_cents (a * b) \<Longrightarrow> \<bar>a * b\<bar> < 10 ^ 26 \<Longrightarrow> dmul a b = a * b"
  by (simp add: dmul_def ctx_round_cents)

lemma quantize_half_up_cents:
  assumes "is_cents x" and "\<bar>x\<bar> < 10 ^ 26"
  shows "quantize_half_up x = Inr x"
proof -
  from assms(1) obtain c :: int where c: "x = of_int c / 100" by (auto simp: is_cents_iff)
  have "\<bar>of_int c :: rat\<bar> < 10 ^ 28" using assms(2) by (simp add: c)
  then have "(of_int \<bar>c\<bar> :: rat) < of_int (10 ^ 28)" by simp
  then have "\<bar>c\<bar> < 10 ^ 28" by (simp only: of_int_less_iff)
  then show ?thesis
    by (simp add: quantize_half_up_def quantize_with_def c)
qed

lemma quantize_ctx_cents:
  assumes "is_cents x" and "\<bar>x\<bar> < 10 ^ 26"
  shows "quantize_ctx x = Inr x"
proof -
  from assms(1) obtain c :: int where c: "x = of_int c / 100" by (auto simp: is_cents_iff)
  have "\<bar>of_int c :: rat\<bar> < 10 ^ 28" using assms(2) by (simp add: c)
  then have "(of_int \<bar>c\<bar> :: rat) < of_int (10 ^ 28)" by simp
  then have "\<bar>c\<bar> < 10 ^ 28" by (simp only: of_int_less_iff)
  then show ?thesis
    by (simp add: quantize_ctx_def quantize_with_def c)
qed

subsection \<open>Dictionaries\<close>

lemma dict_get_update:
  "dict_get (AList.update k v d) k' = (if k' = k then v else dict_get d k')"
  by (simp add: dict_get_def update_conv')

lemma sum_values_update:
  "sum_list (dict_values (AList.update k v d)) = sum_list (dict_values d) - dict_get d k + v"
  by (induction d) (auto simp: dict_values_def dict_get_def)

lemma values_update_subset:
  "set (dict_values (AList.update k v d)) \<subseteq> insert v (set (dict_values d))"
  by (induction d) (auto simp: dict_values_def)

lemma dict_get_in_values: "dict_get d k \<in> insert 0 (set (dict_values d))"
proof (cases "map_of d k")
  case None
  then show ?thesis by (simp add: dict_get_def)
next
  case (Some v)
  then have "(k, v) \<in> set d" by (rule map_of_SomeD)
  then have "v \<in> set (dict_values d)" by (force simp: dict_values_def)
  then show ?thesis using Some by (simp add: dict_get_def)
qed

lemma zero_dict_fold_values:
  "set (dict_values d) \<subseteq> {0} \<Longrightarrow>
   set (dict_values (foldl (\<lambda>d p. AList.update (partner_id p) 0 d) d ps)) \<subseteq> {0}"
proof (induction ps arbitrary: d)
  case Nil
  then show ?case by simp
next
  case (Cons p ps)
  have "set (dict_values (AList.update (partner_id p) 0 d)) \<subseteq> {0}"
    using values_update_subset [of "partner_id p" 0 d] Cons.prems by auto
  then show ?case using Cons.IH by simp
qed

lemma zero_dict_values: "set (dict_values (zero_dict ps)) \<subseteq> {0}"
  unfolding zero_dict_def by (rule zero_dict_fold_values) (simp add: dict_values_def)

lemma sum_list_zero_values: "set xs \<subseteq> {0 :: rat} \<Longrightarrow> sum_list xs = 0"
  by (induction xs) auto

lemma member_le_sum_list_nonneg:
  "\<forall>v \<in> set xs. (0 :: rat) \<le> v \<Longrightarrow> x \<in> set xs \<Longrightarrow> x \<le> sum_list xs"
proof (induction xs)
  case Nil
  then show ?case by simp
next
  case (Cons a xs)
  have nn: "0 \<le> sum_list xs" using Cons.prems(1) by (simp add: sum_list_nonneg)
  show ?case
  proof (cases "x = a")
    case True
    then show ?thesis using nn by simp
  next
    case False
    then have "x \<le> sum_list xs" using Cons by simp
    moreover have "0 \<le> a" using Cons.prems(1) by simp
    ultimately show ?thesis by simp
  qed
qed

lemma conserving_get:
  assumes "conserving tp (pp, rem)"
  shows "is_cents (dict_get pp k)" and "0 \<le> dict_get pp k" and "dict_get pp k \<le> tp"
proof -
  have mem: "dict_get pp k \<in> insert 0 (set (dict_values pp))" by (rule dict_get_in_values)
  have all: "\<forall>v \<in> set (dict_values pp). is_cents v \<and> 0 \<le> v"
    using assms by (simp add: conserving_def)
  show c: "is_cents (dict_get pp k)" using mem all by auto
  show n: "0 \<le> dict_get pp k" using mem all by auto
  have s: "sum_list (dict_values pp) + rem = tp" and r: "0 \<le> rem"
    using assms by (simp_all add: conserving_def)
  have "0 \<le> sum_list (dict_values pp)" using all by (simp add: sum_list_nonneg)
  moreover have "dict_get pp k \<noteq> 0 \<Longrightarrow> dict_get pp k \<le> sum_list (dict_values pp)"
    using mem all by (intro member_le_sum_list_nonneg) auto
  ultimately have "dict_get pp k \<le> sum_list (dict_values pp)"
    by (cases "dict_get pp k = 0") simp_all
  then show "dict_get pp k \<le> tp" using s r by linarith
qed

text \<open>Moving a whole-cent amount from the pool to a partner keeps the invariant, with
  no rounding.\<close>

lemma conserving_distribute:
  assumes inv: "conserving tp (pp, rem)" and tot: "tp \<le> 10 ^ 25"
    and d: "is_cents d" "0 \<le> d" "d \<le> rem"
  shows "conserving tp (dict_add pp k d, dsub rem d)"
    and "dict_add pp k d = AList.update k (dict_get pp k + d) pp"
    and "dsub rem d = rem - d"
proof -
  let ?v = "dict_get pp k"
  note g = conserving_get [OF inv, of k]
  have all: "\<forall>v \<in> set (dict_values pp). is_cents v \<and> 0 \<le> v"
    and rc: "is_cents rem" and r0: "0 \<le> rem"
    and s: "sum_list (dict_values pp) + rem = tp"
    using inv by (simp_all add: conserving_def)
  have nn: "0 \<le> sum_list (dict_values pp)" using all by (simp add: sum_list_nonneg)
  have "?v \<noteq> 0 \<Longrightarrow> ?v \<le> sum_list (dict_values pp)"
    using dict_get_in_values [of pp k] all by (intro member_le_sum_list_nonneg) auto
  then have vs: "?v \<le> sum_list (dict_values pp)" using nn by (cases "?v = 0") simp_all
  have b1: "\<bar>?v + d\<bar> < 10 ^ 26" using g(2) d(2,3) vs s tot by simp
  have b2: "\<bar>rem - d\<bar> < 10 ^ 26" using d(2,3) r0 nn s tot by simp
  have add: "dadd ?v d = ?v + d" using g(1) d(1) b1 by (rule dadd_cents)
  show sub: "dsub rem d = rem - d" using rc d(1) b2 by (rule dsub_cents)
  show upd: "dict_add pp k d = AList.update k (?v + d) pp" by (simp add: dict_add_def add)
  have vals: "\<forall>v \<in> set (dict_values (AList.update k (?v + d) pp)). is_cents v \<and> 0 \<le> v"
    using values_update_subset [of k "?v + d" pp] all g(1,2) d(1,2)
    by (auto simp: is_cents_add)
  have sum: "sum_list (dict_values (AList.update k (?v + d) pp)) = sum_list (dict_values pp) + d"
    by (simp add: sum_values_update)
  show "conserving tp (dict_add pp k d, dsub rem d)"
    unfolding upd sub conserving_def using vals sum s rc d by (simp add: is_cents_diff)
qed

lemma return_of_capital_conserving:
  assumes "conserving tp st" and "tp \<le> 10 ^ 25"
    and "\<forall>p \<in> set ps. is_cents (capital_contributed p) \<and> \<bar>capital_contributed p\<bar> \<le> 10 ^ 25"
  shows "conserving tp (return_of_capital ps st)"
  using assms
proof (induction ps arbitrary: st)
  case Nil
  then show ?case by simp
next
  case (Cons p ps)
  obtain pp rem where st: "st = (pp, rem)" by (cases st)
  note inv = Cons.prems(1) [unfolded st]
  note g = conserving_get [OF inv, of "partner_id p"]
  have capc: "is_cents (capital_contributed p)" and capb: "\<bar>capital_contributed p\<bar> \<le> 10 ^ 25"
    using Cons.prems(3) by simp_all
  have rest: "\<forall>p \<in> set ps. is_cents (capital_contributed p) \<and> \<bar>capital_contributed p\<bar> \<le> 10 ^ 25"
    using Cons.prems(3) by simp
  have rc: "is_cents rem" using inv by (simp add: conserving_def)
  have "\<bar>capital_contributed p - dict_get pp (partner_id p)\<bar> < 10 ^ 26"
    using capb g(2,3) Cons.prems(2) by simp
  then have u: "dsub (capital_contributed p) (dict_get pp (partner_id p))
                  = capital_contributed p - dict_get pp (partner_id p)"
    using capc g(1) by (intro dsub_cents)
  let ?u = "capital_contributed p - dict_get pp (partner_id p)"
  show ?case
  proof (cases "rem \<le> 0")
    case True
    then show ?thesis using inv by (simp add: st)
  next
    case False
    show ?thesis
    proof (cases "0 < ?u")
      case True
      have dc: "is_cents (min ?u rem)" using capc g(1) rc by (simp add: is_cents_min is_cents_diff)
      have "conserving tp (dict_add pp (partner_id p) (min ?u rem), dsub rem (min ?u rem))"
        using inv Cons.prems(2) dc True False by (intro conserving_distribute(1)) simp_all
      then have "conserving tp (return_of_capital ps
                   (dict_add pp (partner_id p) (min ?u rem), dsub rem (min ?u rem)))"
        using Cons.prems(2) rest by (rule Cons.IH)
      then show ?thesis using False True by (simp add: st u Let_def)
    next
      case nu: False
      have "conserving tp (return_of_capital ps (pp, rem))"
        using inv Cons.prems(2) rest by (rule Cons.IH)
      then show ?thesis using False nu by (simp add: st u Let_def)
    qed
  qed
qed

lemma preferred_return_conserving:
  assumes "conserving tp st" and "tp \<le> 10 ^ 25"
    and "\<forall>p \<in> set ps. receives_preferred_return p \<longrightarrow>
           is_cents (capital_contributed p * r) \<and> 0 \<le> capital_contributed p * r
           \<and> capital_contributed p * r \<le> 10 ^ 25"
  shows "conserving tp (preferred_return r ps st)"
  using assms
proof (induction ps arbitrary: st)
  case Nil
  then show ?case by simp
next
  case (Cons p ps)
  obtain pp rem where st: "st = (pp, rem)" by (cases st)
  note inv = Cons.prems(1) [unfolded st]
  have rest: "\<forall>p \<in> set ps. receives_preferred_return p \<longrightarrow>
           is_cents (capital_contributed p * r) \<and> 0 \<le> capital_contributed p * r
           \<and> capital_contributed p * r \<le> 10 ^ 25"
    using Cons.prems(3) by simp
  have rc: "is_cents rem" using inv by (simp add: conserving_def)
  show ?case
  proof (cases "rem \<le> 0")
    case True
    then show ?thesis using inv by (simp add: st)
  next
    case False
    show ?thesis
    proof (cases "receives_preferred_return p")
      case True
      then have pc: "is_cents (capital_contributed p * r)" and p0: "0 \<le> capital_contributed p * r"
        and pb: "capital_contributed p * r \<le> 10 ^ 25"
        using Cons.prems(3) by simp_all
      have m: "dmul (capital_contributed p) r = capital_contributed p * r"
        using pc p0 pb by (intro dmul_cents) simp_all
      let ?d = "min (capital_contributed p * r) rem"
      have dc: "is_cents ?d" using pc rc by (simp add: is_cents_min)
      have "conserving tp (dict_add pp (partner_id p) ?d, dsub rem ?d)"
        using inv Cons.prems(2) dc p0 False by (intro conserving_distribute(1)) simp_all
      then have "conserving tp (preferred_return r ps
                   (dict_add pp (partner_id p) ?d, dsub rem ?d))"
        using Cons.prems(2) rest by (rule Cons.IH)
      then show ?thesis using False True by (simp add: st m Let_def)
    next
      case np: False
      have "conserving tp (preferred_return r ps (pp, rem))"
        using inv Cons.prems(2) rest by (rule Cons.IH)
      then show ?thesis using False np by (simp add: st)
    qed
  qed
qed

lemma waterfall_loop_nonpos:
  "rem \<le> 0 \<Longrightarrow> waterfall_loop ps steps (pp, rem) = (pp, rem)"
  by (cases steps) simp_all

lemma apply_step_conserving:
  assumes "conserving tp st" and "tp \<le> 10 ^ 25"
    and "\<forall>p \<in> set ps. is_cents (capital_contributed p) \<and> \<bar>capital_contributed p\<bar> \<le> 10 ^ 25"
    and "step_type s \<noteq> ''pro_rata''"
    and "step_type s = ''preferred_return'' \<longrightarrow>
           (\<forall>p \<in> set ps. receives_preferred_return p \<longrightarrow>
              is_cents (capital_contributed p * rate s) \<and> 0 \<le> capital_contributed p * rate s
              \<and> capital_contributed p * rate s \<le> 10 ^ 25)"
  shows "conserving tp (apply_step ps s st)"
proof (cases "step_type s = ''return_of_capital''")
  case True
  then show ?thesis
    using return_of_capital_conserving [OF assms(1,2,3)] by (simp add: apply_step_def)
next
  case nroc: False
  show ?thesis
  proof (cases "step_type s = ''preferred_return''")
    case True
    then have "conserving tp (preferred_return (rate s) ps st)"
      using assms(1,2,5) by (intro preferred_return_conserving) simp_all
    then show ?thesis using True by (simp add: apply_step_def)
  next
    case False
    then show ?thesis using nroc assms(1,4) by (simp add: apply_step_def)
  qed
qed

lemma waterfall_loop_conserving:
  assumes "conserving tp st" and "tp \<le> 10 ^ 25"
    and "\<forall>p \<in> set ps. is_cents (capital_contributed p) \<and> \<bar>capital_contributed p\<bar> \<le> 10 ^ 25"
    and "\<forall>s \<in> set steps. step_type s \<noteq> ''pro_rata'' \<and>
           (step_type s = ''preferred_return'' \<longrightarrow>
             (\<forall>p \<in> set ps. receives_preferred_return p \<longrightarrow>
                is_cents (capital_contributed p * rate s) \<and> 0 \<le> capital_contributed p * rate s
                \<and> capital_contributed p * rate s \<le> 10 ^ 25))"
  shows "conserving tp (waterfall_loop ps steps st)"
  using assms(1,4)
proof (induction steps arbitrary: st)
  case Nil
  then show ?case by simp
next
  case (Cons s steps)
  obtain pp rem where st: "st = (pp, rem)" by (cases st)
  show ?case
  proof (cases "rem \<le> 0")
    case True
    then show ?thesis using Cons.prems(1) by (simp add: st)
  next
    case False
    have "conserving tp (apply_step ps s st)"
      using Cons.prems(1) assms(2,3) Cons.prems(2) by (intro apply_step_conserving) simp_all
    then have "conserving tp (waterfall_loop ps steps (apply_step ps s st))"
      using Cons.prems(2) by (intro Cons.IH) simp_all
    then show ?thesis using False by (simp add: st)
  qed
qed

lemma zero_dict_conserving:
  assumes "is_cents tp" and "0 \<le> tp"
  shows "conserving tp (zero_dict ps, tp)"
proof -
  have z: "set (dict_values (zero_dict ps)) \<subseteq> {0}" by (rule zero_dict_values)
  then have "sum_list (dict_values (zero_dict ps)) = 0" by (rule sum_list_zero_values)
  moreover have "\<forall>v \<in> set (dict_values (zero_dict ps)). is_cents v \<and> 0 \<le> v"
    using z by auto
  ultimately show ?thesis using assms by (simp add: conserving_def)
qed

lemma quantize_all_cents:
  "\<forall>v \<in> set (dict_values d). is_cents v \<and> \<bar>v\<bar> < 10 ^ 26 \<Longrightarrow>
   quantize_all quantize_half_up d = Inr d"
proof (induction d)
  case Nil
  then show ?case by simp
next
  case (Cons kv d)
  obtain k v where kv: "kv = (k, v)" by (cases kv)
  have "quantize_half_up v = Inr v"
    using Cons.prems by (intro quantize_half_up_cents) (simp_all add: kv dict_values_def)
  moreover have "quantize_all quantize_half_up d = Inr d"
    using Cons.prems by (intro Cons.IH) (simp add: dict_values_def)
  ultimately show ?case by (simp add: kv)
qed

lemma conserving_values_bounded:
  assumes "conserving tp (pp, rem)" and "tp \<le> 10 ^ 25"
  shows "\<forall>v \<in> set (dict_values pp). is_cents v \<and> \<bar>v\<bar> < 10 ^ 26"
proof
  fix v assume v: "v \<in> set (dict_values pp)"
  have all: "\<forall>v \<in> set (dict_values pp). is_cents v \<and> 0 \<le> v"
    and s: "sum_list (dict_values pp) + rem = tp" and r: "0 \<le> rem"
    using assms(1) by (simp_all add: conserving_def)
  have "v \<le> sum_list (dict_values pp)"
    using all v by (intro member_le_sum_list_nonneg) auto
  then have "v \<le> 10 ^ 25" using s r assms(2) by linarith
  moreover have "0 \<le> v" using all v by simp
  ultimately show "is_cents v \<and> \<bar>v\<bar> < 10 ^ 26" using all v by simp
qed

text \<open>Conservation of the standalone waterfall on whole-cent inputs, for step lists
  without a \<open>pro_rata\<close> step, before and after the final rounding.\<close>

lemma liquidation_conservation:
  assumes "is_cents tp" and "\<bar>tp\<bar> \<le> 10 ^ 25"
    and "\<forall>p \<in> set ps. is_cents (capital_contributed p) \<and> \<bar>capital_contributed p\<bar> \<le> 10 ^ 25"
    and "\<forall>s \<in> set steps. step_type s \<noteq> ''pro_rata'' \<and>
           (step_type s = ''preferred_return'' \<longrightarrow>
             (\<forall>p \<in> set ps. receives_preferred_return p \<longrightarrow>
                is_cents (capital_contributed p * rate s) \<and> 0 \<le> capital_contributed p * rate s
                \<and> capital_contributed p * rate s \<le> 10 ^ 25))"
  shows "calculate_liquidation_proceeds tp steps ps
           = Inr (fst (liquidation_state tp steps ps))"
    and "sum_list (dict_values (fst (liquidation_state tp steps ps)))
           + snd (liquidation_state tp steps ps) = tp"
proof -
  obtain pp rem where ls: "liquidation_state tp steps ps = (pp, rem)"
    by (cases "liquidation_state tp steps ps")
  have "(\<forall>v \<in> set (dict_values pp). is_cents v \<and> \<bar>v\<bar> < 10 ^ 26)
        \<and> sum_list (dict_values pp) + rem = tp"
  proof (cases "0 \<le> tp")
    case True
    then have "conserving tp (zero_dict ps, tp)" using assms(1) by (intro zero_dict_conserving)
    moreover have tb: "tp \<le> 10 ^ 25" using assms(2) by simp
    ultimately have c: "conserving tp (pp, rem)"
      using waterfall_loop_conserving [OF _ _ assms(3,4), of tp "(zero_dict ps, tp)"] ls
      by (simp add: liquidation_state_def)
    then show ?thesis using conserving_values_bounded [OF c tb] by (simp add: conserving_def)
  next
    case False
    then have "liquidation_state tp steps ps = (zero_dict ps, tp)"
      by (simp add: liquidation_state_def waterfall_loop_nonpos)
    then have pp: "pp = zero_dict ps" and rem: "rem = tp" using ls by simp_all
    have z: "set (dict_values pp) \<subseteq> {0}" unfolding pp by (rule zero_dict_values)
    then have "sum_list (dict_values pp) = 0" by (rule sum_list_zero_values)
    moreover have "\<forall>v \<in> set (dict_values pp). is_cents v \<and> \<bar>v\<bar> < 10 ^ 26" using z by auto
    ultimately show ?thesis by (simp add: rem)
  qed
  then show "calculate_liquidation_proceeds tp steps ps
           = Inr (fst (liquidation_state tp steps ps))"
    and "sum_list (dict_values (fst (liquidation_state tp steps ps)))
           + snd (liquidation_state tp steps ps) = tp"
    by (simp_all add: calculate_liquidation_proceeds_def ls quantize_all_cents)
qed


lemma scenario_check:
  "calculate_liquidation_proceeds 1000000 [ex_step ''return_of_capital'' 0]
        [ex_partner ''A'' 600000 (1 / 2), ex_partner ''B'' 400000 (1 / 2)]
     = Inr [(''A'', 600000), (''B'', 400000)]"
  by code_simp

lemma zero_dict_all_zero: "v \<in> set (dict_values (zero_dict ps)) \<Longrightarrow> v = 0"
  using zero_dict_values [of ps] by auto

text \<open>The standalone function tests the pool before the first step, so that zero or
  negative proceeds leave every partner at zero and raise no error.\<close>

lemma calculate_liquidation_proceeds_nonpos:
  assumes "tp \<le> 0"
  shows "calculate_liquidation_proceeds tp steps ps = Inr (zero_dict ps)"
proof -
  have "liquidation_state tp steps ps = (zero_dict ps, tp)"
    using assms by (simp add: liquidation_state_def waterfall_loop_nonpos)
  moreover have "quantize_all quantize_half_up (zero_dict ps) = Inr (zero_dict ps)"
    by (rule quantize_all_cents) (auto dest: zero_dict_all_zero)
  ultimately show ?thesis by (simp add: calculate_liquidation_proceeds_def)
qed

text \<open>
  Claim C5 on the manager's liquidation model: with proceeds of -100 and a single
  \<open>return_of_capital\<close> step, a partner who contributed 50 is given -100. The loop tests the
  pool only after a step.
\<close>

theorem negative_proceeds_manager_distribution:
  "model_liquidation_distribution [ex_partner ''A'' 50 1]
       [ex_step ''return_of_capital'' 0] (- 100)
     = Inr \<lparr>total_proceeds = - 100, partner_distributions = [(''A'', - 100)],
            waterfall_steps_processed = 1, remaining_proceeds = 0\<rparr>
   \<and> calculate_liquidation_proceeds (- 100) [ex_step ''return_of_capital'' 0]
        [ex_partner ''A'' 50 1] = Inr [(''A'', 0)]"
  by code_simp

lemma map_of_zero_dict_fold:
  "map_of (foldl (\<lambda>d p. AList.update (partner_id p) 0 d) d ps) k
     = (if k \<in> partner_id ` set ps then Some 0 else map_of d k)"
  by (induction ps arbitrary: d) (auto simp: update_conv')

lemma map_of_zero_dict:
  "p \<in> set ps \<Longrightarrow> map_of (zero_dict ps) (partner_id p) = Some 0"
  by (simp add: zero_dict_def map_of_zero_dict_fold)

lemma return_of_capital_nonpos:
  "rem \<le> 0 \<Longrightarrow> return_of_capital ps (pp, rem) = (pp, rem)"
  by (cases ps) simp_all

lemma conserving_remaining:
  assumes "conserving tp (pp, rem)"
  shows "is_cents rem" and "0 \<le> rem" and "rem \<le> tp"
proof -
  have all: "\<forall>v \<in> set (dict_values pp). is_cents v \<and> 0 \<le> v"
    and s: "sum_list (dict_values pp) + rem = tp"
    using assms by (simp_all add: conserving_def)
  show "is_cents rem" and "0 \<le> rem" using assms by (simp_all add: conserving_def)
  have "0 \<le> sum_list (dict_values pp)" using all by (simp add: sum_list_nonneg)
  then show "rem \<le> tp" using s by linarith
qed

lemma return_of_capital_append:
  "return_of_capital (xs @ ys) st = return_of_capital ys (return_of_capital xs st)"
proof (induction xs arbitrary: st)
  case Nil
  show ?case by simp
next
  case (Cons p xs)
  obtain pp rem where st: "st = (pp, rem)" by (cases st)
  show ?case
  proof (cases "rem \<le> 0")
    case True
    then show ?thesis by (simp add: st return_of_capital_nonpos)
  next
    case False
    then show ?thesis by (simp add: st Cons.IH Let_def)
  qed
qed

lemma dict_get_dict_add:
  "dict_get (dict_add d k v) k' = (if k' = k then dadd (dict_get d k) v else dict_get d k')"
  by (simp add: dict_add_def dict_get_update)

lemma return_of_capital_untouched:
  "k \<notin> partner_id ` set ps \<Longrightarrow>
   dict_get (fst (return_of_capital ps (pp, rem))) k = dict_get pp k"
proof (induction ps arbitrary: pp rem)
  case Nil
  show ?case by simp
next
  case (Cons p ps)
  then have ne: "k \<noteq> partner_id p" and rest: "k \<notin> partner_id ` set ps" by auto
  show ?case
    using ne Cons.IH [OF rest] by (simp add: Let_def dict_get_dict_add)
qed

text \<open>
  Claim C4 on a waterfall of a preferred return at rate 0.5 followed by a return of
  capital, for one partner who contributed 100, with proceeds of 1000. The preferred return
  pays 50. The \<open>return_of_capital\<close> step as specified then pays min(100 - 0, 950) = 100,
  since no earlier \<open>return_of_capital\<close> step paid anything; so does the manager's loop.
  The loop of \<open>calculate_liquidation_proceeds\<close> subtracts the preferred return and pays 50.
  On two \<open>return_of_capital\<close> steps it is the manager's loop that departs from the
  specified step: it pays the 100 a second time.
\<close>

theorem return_of_capital_after_preferred_return:
  "preferred_return (1 / 2) [ex_partner ''A'' 100 1] (zero_dict [ex_partner ''A'' 100 1], 1000)
     = ([(''A'', 50)], 950)
   \<and> spec_return_of_capital [] [ex_partner ''A'' 100 1] ([(''A'', 50)], 950)
     = ([(''A'', 150)], 850)
   \<and> m_return_of_capital [ex_partner ''A'' 100 1] ([(''A'', 50)], 950)
     = ([(''A'', 150)], 850)
   \<and> return_of_capital [ex_partner ''A'' 100 1] ([(''A'', 50)], 950)
     = ([(''A'', 100)], 900)
   \<and> liquidation_state 1000 [ex_step ''preferred_return'' (1 / 2), ex_step ''return_of_capital'' 0]
       [ex_partner ''A'' 100 1]
     = ([(''A'', 100)], 900)
   \<and> calculate_liquidation_proceeds 1000
       [ex_step ''preferred_return'' (1 / 2), ex_step ''return_of_capital'' 0]
       [ex_partner ''A'' 100 1]
     = Inr [(''A'', 100)]
   \<and> model_liquidation_distribution [ex_partner ''A'' 100 1]
       [ex_step ''preferred_return'' (1 / 2), ex_step ''return_of_capital'' 0] 1000
     = Inr \<lparr>total_proceeds = 1000, partner_distributions = [(''A'', 150)],
            waterfall_steps_processed = 2, remaining_proceeds = 850\<rparr>
   \<and> spec_return_of_capital [(''A'', 100)] [ex_partner ''A'' 100 1] ([(''A'', 100)], 900)
     = ([(''A'', 100)], 900)
   \<and> return_of_capital [ex_partner ''A'' 100 1] ([(''A'', 100)], 900)
     = ([(''A'', 100)], 900)
   \<and> m_return_of_capital [ex_partner ''A'' 100 1] ([(''A'', 100)], 900)
     = ([(''A'', 200)], 800)"
  by code_simp


subsection \<open>Rounding is monotone and idempotent\<close>

lemma round_half_even_bounds:
  "of_int (round_half_even q) \<le> q + 1 / 2" and "q - 1 / 2 \<le> of_int (round_half_even q)"
proof -
  define f where "f = \<lfloor>q\<rfloor>"
  have f: "of_int f \<le> q" "q < of_int f + 1" unfolding f_def by linarith+
  have r: "round_half_even q
             = (if q - of_int f < 1 / 2 then f else if 1 / 2 < q - of_int f then f + 1
                else if even f then f else f + 1)"
    by (simp add: round_half_even_def Let_def f_def)
  show "of_int (round_half_even q) \<le> q + 1 / 2" using f unfolding r by auto
  show "q - 1 / 2 \<le> of_int (round_half_even q)" using f unfolding r by auto
qed

lemma round_half_even_ge_floor: "\<lfloor>q\<rfloor> \<le> round_half_even q"
  by (simp add: round_half_even_def Let_def)

lemma round_half_even_le_floor: "round_half_even q \<le> \<lfloor>q\<rfloor> + 1"
  by (simp add: round_half_even_def Let_def)

lemma p10_shift: "(10 :: rat) ^ n * 10 powi (a - int n) = 10 powi a"
proof -
  have "(10 :: rat) powi (int n) * 10 powi (a - int n) = 10 powi (int n + (a - int n))"
    by (rule power_int_add [symmetric]) simp
  then show ?thesis by simp
qed

lemma round_half_even_mono:
  assumes "q \<le> q'"
  shows "round_half_even q \<le> round_half_even q'"
proof (cases "\<lfloor>q\<rfloor> = \<lfloor>q'\<rfloor>")
  case True
  then show ?thesis using assms by (auto simp: round_half_even_def Let_def)
next
  case False
  then have lt: "\<lfloor>q\<rfloor> + 1 \<le> \<lfloor>q'\<rfloor>" using floor_mono [OF assms] by simp
  show ?thesis
    using lt round_half_even_le_floor [of q] round_half_even_ge_floor [of q'] by linarith
qed

lemma round_half_even_minus: "round_half_even (- q) = - round_half_even q"
proof (cases "of_int \<lfloor>q\<rfloor> = q")
  case True
  obtain n :: int where n: "q = of_int n" using True [symmetric] ..
  have "round_half_even (- q) = round_half_even (of_int (- n))" by (simp add: n)
  also have "\<dots> = - n" by (rule round_half_even_of_int)
  finally show ?thesis by (simp add: n)
next
  case False
  define f where "f = \<lfloor>q\<rfloor>"
  have le: "of_int f \<le> q" unfolding f_def by (rule of_int_floor_le)
  have ne: "of_int f \<noteq> q" unfolding f_def by (rule False)
  have lt: "of_int f < q" using le ne by linarith
  have ub: "q < of_int f + 1" unfolding f_def by linarith
  have fl: "\<lfloor>- q\<rfloor> = - f - 1"
    using lt ub by (intro floor_unique) simp_all
  have r: "round_half_even q
             = (if q - of_int f < 1 / 2 then f else if 1 / 2 < q - of_int f then f + 1
                else if even f then f else f + 1)"
    by (simp add: round_half_even_def Let_def f_def)
  have r': "round_half_even (- q)
             = (if - q - of_int (- f - 1) < 1 / 2 then - f - 1
                else if 1 / 2 < - q - of_int (- f - 1) then - f
                else if even (- f - 1) then - f - 1 else - f)"
    by (simp add: round_half_even_def Let_def fl)
  show ?thesis unfolding r r' by (auto simp: algebra_simps)
qed

lemma ctx_round_0 [simp]: "ctx_round 0 = 0"
  by (simp add: ctx_round_def)

lemma adjusted_minus [simp]: "adjusted (- x) = adjusted x"
  by (simp add: adjusted_def)

lemma scale10_minus: "scale10 (- x) e = - scale10 x e"
  by (simp add: scale10_def)

lemma ctx_round_minus: "ctx_round (- x) = - ctx_round x"
  by (simp add: ctx_round_def Let_def scale10_minus round_half_even_minus)

text \<open>The scaled value of a positive number lies between \<open>10 ^ 27\<close> and \<open>10 ^ 28\<close>, and so
  does its rounding.\<close>

lemma scaled_bounds:
  assumes "0 < x"
  shows "10 ^ 27 \<le> scale10 x (- (adjusted x - 27))"
    and "scale10 x (- (adjusted x - 27)) < 10 ^ 28"
proof -
  have nz: "x \<noteq> 0" using assms by simp
  have ax: "\<bar>x\<bar> = x" using assms by simp
  have p: "0 < (10 :: rat) powi (- (adjusted x - 27))" by simp
  have e1: "(10 :: rat) powi adjusted x * 10 powi (- (adjusted x - 27)) = 10 ^ 27"
    by (simp add: power_int_add [symmetric])
  have e2: "(10 :: rat) powi (adjusted x + 1) * 10 powi (- (adjusted x - 27)) = 10 ^ 28"
    by (simp add: power_int_add [symmetric])
  have "10 powi adjusted x * 10 powi (- (adjusted x - 27))
          \<le> x * 10 powi (- (adjusted x - 27))"
    using adjusted_bounds(1) [OF nz] p unfolding ax by (intro mult_right_mono) simp_all
  then show "10 ^ 27 \<le> scale10 x (- (adjusted x - 27))"
    unfolding e1 scale10_powi .
  have "x * 10 powi (- (adjusted x - 27))
          < 10 powi (adjusted x + 1) * 10 powi (- (adjusted x - 27))"
    using adjusted_bounds(2) [OF nz] p unfolding ax by (intro mult_strict_right_mono)
  then show "scale10 x (- (adjusted x - 27)) < 10 ^ 28"
    unfolding e2 scale10_powi .
qed

lemma rounded_coefficient_bounds:
  assumes "0 < x"
  shows "10 ^ 27 \<le> round_half_even (scale10 x (- (adjusted x - 27)))"
    and "round_half_even (scale10 x (- (adjusted x - 27))) \<le> 10 ^ 28"
proof -
  let ?q = "scale10 x (- (adjusted x - 27))"
  have "round_half_even (of_int (10 ^ 27)) \<le> round_half_even ?q"
    using scaled_bounds(1) [OF assms] by (intro round_half_even_mono) simp
  then show "10 ^ 27 \<le> round_half_even ?q"
    by (simp only: round_half_even_of_int)
  have "round_half_even ?q \<le> round_half_even (of_int (10 ^ 28))"
    using scaled_bounds(2) [OF assms] by (intro round_half_even_mono) simp
  then show "round_half_even ?q \<le> 10 ^ 28"
    by (simp only: round_half_even_of_int)
qed

lemma ctx_round_pos_eq:
  "0 < x \<Longrightarrow> ctx_round x
     = of_int (round_half_even (scale10 x (- (adjusted x - 27)))) * 10 powi (adjusted x - 27)"
  by (simp add: ctx_round_def Let_def scale10_powi)

lemma ctx_round_pos_bounds:
  assumes "0 < x"
  shows "10 powi adjusted x \<le> ctx_round x" and "ctx_round x \<le> 10 powi (adjusted x + 1)"
proof -
  let ?c = "round_half_even (scale10 x (- (adjusted x - 27)))"
  have p: "0 \<le> (10 :: rat) powi (adjusted x - 27)" by simp
  have e1: "(10 :: rat) ^ 27 * 10 powi (adjusted x - 27) = 10 powi adjusted x"
    using p10_shift [of 27 "adjusted x"] by simp
  have e2: "(10 :: rat) ^ 28 * 10 powi (adjusted x - 27) = 10 powi (adjusted x + 1)"
    using p10_shift [of 28 "adjusted x + 1"] by simp
  have "(of_int (10 ^ 27) :: rat) \<le> of_int ?c"
    using rounded_coefficient_bounds(1) [OF assms] by (simp only: of_int_le_iff)
  then have "(10 :: rat) ^ 27 * 10 powi (adjusted x - 27) \<le> of_int ?c * 10 powi (adjusted x - 27)"
    using p by (intro mult_right_mono) simp_all
  then show "10 powi adjusted x \<le> ctx_round x"
    unfolding e1 ctx_round_pos_eq [OF assms] .
  have "(of_int ?c :: rat) \<le> of_int (10 ^ 28)"
    using rounded_coefficient_bounds(2) [OF assms] by (simp only: of_int_le_iff)
  then have "of_int ?c * 10 powi (adjusted x - 27) \<le> (10 :: rat) ^ 28 * 10 powi (adjusted x - 27)"
    using p by (intro mult_right_mono) simp_all
  then show "ctx_round x \<le> 10 powi (adjusted x + 1)"
    unfolding e2 ctx_round_pos_eq [OF assms] .
qed

lemma ctx_round_pos:
  assumes "0 < x"
  shows "0 < ctx_round x"
proof -
  have "0 < (10 :: rat) powi adjusted x" by (rule zero_less_power_int) simp
  then show ?thesis using ctx_round_pos_bounds(1) [OF assms] by linarith
qed

lemma ctx_round_mono_pos:
  assumes "0 < x" and "x \<le> y"
  shows "ctx_round x \<le> ctx_round y"
proof -
  have y: "0 < y" using assms by simp
  have nx: "x \<noteq> 0" and ny: "y \<noteq> 0" using assms by simp_all
  have "10 powi adjusted x \<le> \<bar>x\<bar>" using adjusted_bounds(1) [OF nx] .
  also have "\<bar>x\<bar> \<le> \<bar>y\<bar>" using assms by simp
  also have "\<bar>y\<bar> < 10 powi (adjusted y + 1)" using adjusted_bounds(2) [OF ny] .
  finally have "adjusted x < adjusted y + 1" by (rule p10_less_imp)
  then have le: "adjusted x \<le> adjusted y" by simp
  show ?thesis
  proof (cases "adjusted x = adjusted y")
    case True
    have p: "0 \<le> (10 :: rat) powi (- (adjusted y - 27))" by simp
    have "scale10 x (- (adjusted y - 27)) \<le> scale10 y (- (adjusted y - 27))"
      unfolding scale10_powi using assms(2) p by (intro mult_right_mono)
    then have "round_half_even (scale10 x (- (adjusted y - 27)))
                 \<le> round_half_even (scale10 y (- (adjusted y - 27)))"
      by (rule round_half_even_mono)
    then have "(of_int (round_half_even (scale10 x (- (adjusted y - 27)))) :: rat)
                 \<le> of_int (round_half_even (scale10 y (- (adjusted y - 27))))"
      by (simp only: of_int_le_iff)
    then have "of_int (round_half_even (scale10 x (- (adjusted y - 27)))) * 10 powi (adjusted y - 27)
                 \<le> of_int (round_half_even (scale10 y (- (adjusted y - 27))))
                    * (10 :: rat) powi (adjusted y - 27)"
      by (intro mult_right_mono) simp_all
    then show ?thesis
      unfolding ctx_round_pos_eq [OF assms(1)] ctx_round_pos_eq [OF y] True .
  next
    case False
    then have "adjusted x + 1 \<le> adjusted y" using le by simp
    then have "(10 :: rat) powi (adjusted x + 1) \<le> 10 powi adjusted y"
      by (intro power_int_increasing) simp_all
    then show ?thesis
      using ctx_round_pos_bounds(2) [OF assms(1)] ctx_round_pos_bounds(1) [OF y] by linarith
  qed
qed

lemma ctx_round_mono:
  assumes "x \<le> y"
  shows "ctx_round x \<le> ctx_round y"
proof -
  consider "0 < x" | "x \<le> 0" "0 \<le> y" | "y < 0" by linarith
  then show ?thesis
  proof cases
    case 1
    then show ?thesis using assms by (rule ctx_round_mono_pos)
  next
    case 2
    have "ctx_round x \<le> 0"
    proof (cases "x = 0")
      case True
      then show ?thesis by simp
    next
      case False
      then have "0 < - x" using 2(1) by simp
      then have "0 < ctx_round (- x)" by (rule ctx_round_pos)
      then show ?thesis by (simp add: ctx_round_minus)
    qed
    moreover have "0 \<le> ctx_round y"
    proof (cases "y = 0")
      case True
      then show ?thesis by simp
    next
      case False
      then have "0 < y" using 2(2) by simp
      then have "0 < ctx_round y" by (rule ctx_round_pos)
      then show ?thesis by simp
    qed
    ultimately show ?thesis by linarith
  next
    case 3
    then have "0 < - y" and "- y \<le> - x" using assms by simp_all
    then have "ctx_round (- y) \<le> ctx_round (- x)" by (rule ctx_round_mono_pos)
    then show ?thesis by (simp add: ctx_round_minus)
  qed
qed

lemma ctx_round_nonneg: "0 \<le> x \<Longrightarrow> 0 \<le> ctx_round x"
  using ctx_round_mono [of 0 x] by simp

lemma ctx_round_nonpos: "x \<le> 0 \<Longrightarrow> ctx_round x \<le> 0"
  using ctx_round_mono [of x 0] by simp

lemma ctx_round_idem_pos:
  assumes "0 < x"
  shows "ctx_round (ctx_round x) = ctx_round x"
proof -
  let ?c = "round_half_even (scale10 x (- (adjusted x - 27)))"
  note eq = ctx_round_pos_eq [OF assms]
  note b = rounded_coefficient_bounds [OF assms]
  show ?thesis
  proof (cases "?c = 10 ^ 28")
    case True
    have "ctx_round x = of_int 1 * 10 powi (adjusted x + 1)"
    proof -
      have "(10 :: rat) ^ 28 * 10 powi (adjusted x - 27) = 10 powi (adjusted x + 1)"
        using p10_shift [of 28 "adjusted x + 1"] by simp
      then show ?thesis unfolding eq True by simp
    qed
    then show ?thesis by (rule ctx_round_exact) simp
  next
    case False
    then have "\<bar>?c\<bar> < 10 ^ 28" using b by simp
    with eq show ?thesis by (rule ctx_round_exact)
  qed
qed

lemma ctx_round_idem [simp]: "ctx_round (ctx_round x) = ctx_round x"
proof -
  consider "0 < x" | "x = 0" | "x < 0" by linarith
  then show ?thesis
  proof cases
    case 1
    then show ?thesis by (rule ctx_round_idem_pos)
  next
    case 2
    then show ?thesis by simp
  next
    case 3
    then have "0 < - x" by simp
    then have "ctx_round (ctx_round (- x)) = ctx_round (- x)" by (rule ctx_round_idem_pos)
    then show ?thesis by (simp add: ctx_round_minus)
  qed
qed

subsection \<open>The two step loops on settled states\<close>

lemma settledI:
  assumes "\<forall>p \<in> set ps. map_of pp (partner_id p) \<noteq> None"
    and "\<forall>v \<in> set (dict_values pp). ctx_round v = v"
    and "ctx_round rem = rem" and "0 \<le> rem"
  shows "settled ps (pp, rem)"
  using assms by (simp add: settled_def)

lemma settledD:
  assumes "settled ps (pp, rem)"
  shows "\<forall>p \<in> set ps. map_of pp (partner_id p) \<noteq> None"
    and "\<forall>v \<in> set (dict_values pp). ctx_round v = v"
    and "ctx_round rem = rem" and "0 \<le> rem"
  using assms by (simp_all add: settled_def)

lemma settled_get:
  assumes "settled ps (pp, rem)"
  shows "ctx_round (dict_get pp k) = dict_get pp k"
proof -
  have "dict_get pp k \<in> insert 0 (set (dict_values pp))" by (rule dict_get_in_values)
  then show ?thesis using settledD(2) [OF assms] by auto
qed

lemma dict_add_zero:
  assumes "settled ps (pp, rem)" and "p \<in> set ps"
  shows "dict_add pp (partner_id p) 0 = pp"
proof -
  obtain v where v: "map_of pp (partner_id p) = Some v"
    using settledD(1) [OF assms(1)] assms(2) by auto
  then have g: "dict_get pp (partner_id p) = v" by (simp add: dict_get_def)
  have "ctx_round v = v" using settled_get [OF assms(1), of "partner_id p"] by (simp add: g)
  then have "dadd (dict_get pp (partner_id p)) 0 = v" by (simp add: g dadd_def)
  then show ?thesis using v by (simp add: dict_add_def update_triv)
qed

lemma settled_distribute:
  assumes "settled ps (pp, rem)" and "d \<le> rem"
  shows "settled ps (dict_add pp k d, dsub rem d)"
proof (rule settledI)
  show "\<forall>p \<in> set ps. map_of (dict_add pp k d) (partner_id p) \<noteq> None"
    using settledD(1) [OF assms(1)] by (simp add: dict_add_def update_conv')
  show "\<forall>v \<in> set (dict_values (dict_add pp k d)). ctx_round v = v"
  proof
    fix v assume "v \<in> set (dict_values (dict_add pp k d))"
    then have "v \<in> insert (dadd (dict_get pp k) d) (set (dict_values pp))"
      using values_update_subset unfolding dict_add_def by blast
    then show "ctx_round v = v"
      using settledD(2) [OF assms(1)] by (auto simp: dadd_def)
  qed
  show "ctx_round (dsub rem d) = dsub rem d" by (simp add: dsub_def)
  show "0 \<le> dsub rem d" unfolding dsub_def using assms(2) by (intro ctx_round_nonneg) simp
qed

lemma settled_tail: "settled (p # ps) st \<Longrightarrow> settled ps st"
  by (simp add: settled_def)

lemma return_of_capital_settled:
  "settled ps0 (pp, rem) \<Longrightarrow> settled ps0 (return_of_capital ps (pp, rem))"
proof (induction ps arbitrary: pp rem)
  case Nil
  then show ?case by simp
next
  case (Cons p ps)
  have "settled ps0 (return_of_capital ps
          (dict_add pp (partner_id p) (min u rem), dsub rem (min u rem)))" for u
    by (intro Cons.IH settled_distribute [OF Cons.prems]) simp
  then show ?case using Cons.prems Cons.IH by (simp add: Let_def)
qed

lemma preferred_return_settled:
  "settled ps0 (pp, rem) \<Longrightarrow> settled ps0 (preferred_return r ps (pp, rem))"
proof (induction ps arbitrary: pp rem)
  case Nil
  then show ?case by simp
next
  case (Cons p ps)
  have "settled ps0 (preferred_return r ps
          (dict_add pp (partner_id p) (min u rem), dsub rem (min u rem)))" for u
    by (intro Cons.IH settled_distribute [OF Cons.prems]) simp
  then show ?case using Cons.prems Cons.IH by (simp add: Let_def)
qed

lemma m_return_of_capital_zero_pool:
  assumes "settled ps0 (pp, 0)" and "set ps \<subseteq> set ps0"
    and "\<forall>p \<in> set ps. 0 \<le> capital_contributed p"
  shows "m_return_of_capital ps (pp, 0) = (pp, 0)"
proof (cases ps)
  case Nil
  then show ?thesis by simp
next
  case (Cons p rest)
  then have p: "p \<in> set ps0" using assms(2) by auto
  have "0 \<le> capital_contributed p" using assms(3) Cons by simp
  then have min0: "min (capital_contributed p) 0 = 0" by simp
  have add0: "dict_add pp (partner_id p) 0 = pp" using assms(1) p by (rule dict_add_zero)
  have sub0: "dsub 0 0 = 0" by (simp add: dsub_def)
  show ?thesis unfolding Cons by (simp add: Let_def min0 add0 sub0)
qed

lemma m_return_of_capital_eq:
  assumes "settled ps0 (pp, rem)" and "set ps \<subseteq> set ps0" and "0 < rem"
    and "distinct (map partner_id ps)"
    and "\<forall>p \<in> set ps. map_of pp (partner_id p) = Some 0"
    and "\<forall>p \<in> set ps. 0 \<le> capital_contributed p
           \<and> ctx_round (capital_contributed p) = capital_contributed p"
  shows "m_return_of_capital ps (pp, rem) = return_of_capital ps (pp, rem)"
  using assms
proof (induction ps arbitrary: pp rem)
  case Nil
  show ?case by simp
next
  case (Cons p ps)
  let ?k = "partner_id p" and ?c = "capital_contributed p"
  note inv = Cons.prems(1)
  have pin: "p \<in> set ps0" and sub: "set ps \<subseteq> set ps0" using Cons.prems(2) by simp_all
  have m0: "map_of pp ?k = Some 0" using Cons.prems(5) by simp
  then have g0: "dict_get pp ?k = 0" by (simp add: dict_get_def)
  have cap0: "0 \<le> ?c" and capr: "ctx_round ?c = ?c" using Cons.prems(6) by simp_all
  have u: "dsub ?c (dict_get pp ?k) = ?c" by (simp add: g0 dsub_def capr)
  have dist: "distinct (map partner_id ps)" and notin: "?k \<notin> partner_id ` set ps"
    using Cons.prems(4) by simp_all
  have caps: "\<forall>p \<in> set ps. 0 \<le> capital_contributed p
           \<and> ctx_round (capital_contributed p) = capital_contributed p"
    using Cons.prems(6) by simp
  show ?case
  proof (cases "0 < ?c")
    case True
    let ?d = "min ?c rem"
    have inv': "settled ps0 (dict_add pp ?k ?d, dsub rem ?d)"
      using inv by (rule settled_distribute) simp
    have untouched: "\<forall>q \<in> set ps. map_of (dict_add pp ?k ?d) (partner_id q) = Some 0"
    proof
      fix q assume q: "q \<in> set ps"
      then have "partner_id q \<in> partner_id ` set ps" by (rule imageI)
      then have "partner_id q \<noteq> ?k" using notin by metis
      then show "map_of (dict_add pp ?k ?d) (partner_id q) = Some 0"
        using Cons.prems(5) q by (simp add: dict_add_def update_conv')
    qed
    have std: "return_of_capital (p # ps) (pp, rem)
                 = return_of_capital ps (dict_add pp ?k ?d, dsub rem ?d)"
      using Cons.prems(3) True by (simp add: u Let_def)
    show ?thesis
    proof (cases "dsub rem ?d \<le> 0")
      case stop: True
      then have "m_return_of_capital (p # ps) (pp, rem) = (dict_add pp ?k ?d, dsub rem ?d)"
        by (simp add: Let_def)
      moreover have "return_of_capital ps (dict_add pp ?k ?d, dsub rem ?d)
                       = (dict_add pp ?k ?d, dsub rem ?d)"
        using stop by (rule return_of_capital_nonpos)
      ultimately show ?thesis using std by simp
    next
      case go: False
      then have "m_return_of_capital (p # ps) (pp, rem)
                   = m_return_of_capital ps (dict_add pp ?k ?d, dsub rem ?d)"
        by (simp add: Let_def)
      also have "\<dots> = return_of_capital ps (dict_add pp ?k ?d, dsub rem ?d)"
        using inv' sub go dist untouched caps by (intro Cons.IH) simp_all
      finally show ?thesis using std by simp
    qed
  next
    case False
    then have c0: "?c = 0" using cap0 by simp
    have sub0: "dsub rem 0 = rem" using settledD(3) [OF inv] by (simp add: dsub_def)
    have add0: "dict_add pp ?k 0 = pp" using inv pin by (rule dict_add_zero)
    have min0: "min ?c rem = 0" using c0 Cons.prems(3) by simp
    have "m_return_of_capital (p # ps) (pp, rem) = m_return_of_capital ps (pp, rem)"
      using Cons.prems(3) by (simp add: Let_def min0 add0 sub0)
    also have "\<dots> = return_of_capital ps (pp, rem)"
      using inv sub Cons.prems(3) dist Cons.prems(5) caps by (intro Cons.IH) simp_all
    also have "\<dots> = return_of_capital (p # ps) (pp, rem)"
      using Cons.prems(3) False by (simp add: u Let_def)
    finally show ?thesis .
  qed
qed

lemma m_preferred_return_zero_pool:
  assumes "settled ps0 (pp, 0)" and "set ps \<subseteq> set ps0"
    and "\<forall>p \<in> set ps. partner_type p = ''limited'' \<longrightarrow> 0 \<le> capital_contributed p * r"
  shows "m_preferred_return r ps (pp, 0) = (pp, 0)"
  using assms(2,3)
proof (induction ps)
  case Nil
  show ?case by simp
next
  case (Cons p ps)
  have p: "p \<in> set ps0" using Cons.prems(1) by simp
  have ih: "m_preferred_return r ps (pp, 0) = (pp, 0)"
    using Cons.prems by (intro Cons.IH) simp_all
  show ?case
  proof (cases "partner_type p = ''limited''")
    case True
    then have "0 \<le> capital_contributed p * r" using Cons.prems(2) by simp
    then have "0 \<le> dmul (capital_contributed p) r"
      unfolding dmul_def by (rule ctx_round_nonneg)
    then have min0: "min (dmul (capital_contributed p) r) 0 = 0" by simp
    have add0: "dict_add pp (partner_id p) 0 = pp" using assms(1) p by (rule dict_add_zero)
    have sub0: "dsub 0 0 = 0" by (simp add: dsub_def)
    show ?thesis using True by (simp add: Let_def min0 add0 sub0 ih)
  next
    case False
    then show ?thesis by (simp add: ih)
  qed
qed

lemma m_preferred_return_eq:
  assumes "settled ps0 (pp, rem)" and "set ps \<subseteq> set ps0"
    and "\<forall>p \<in> set ps. receives_preferred_return p = (partner_type p = ''limited'')"
    and "\<forall>p \<in> set ps. receives_preferred_return p \<longrightarrow> 0 \<le> capital_contributed p * r"
  shows "m_preferred_return r ps (pp, rem) = preferred_return r ps (pp, rem)"
  using assms
proof (induction ps arbitrary: pp rem)
  case Nil
  show ?case by simp
next
  case (Cons p ps)
  note inv = Cons.prems(1)
  have sub: "set ps \<subseteq> set ps0" using Cons.prems(2) by simp
  have el: "\<forall>p \<in> set ps. receives_preferred_return p = (partner_type p = ''limited'')"
    and nn: "\<forall>p \<in> set ps. receives_preferred_return p \<longrightarrow> 0 \<le> capital_contributed p * r"
    using Cons.prems(3,4) by simp_all
  have elp: "receives_preferred_return p = (partner_type p = ''limited'')"
    using Cons.prems(3) by simp
  show ?case
  proof (cases "rem \<le> 0")
    case True
    then have r0: "rem = 0" using settledD(4) [OF inv] by simp
    have "\<forall>q \<in> set (p # ps). partner_type q = ''limited'' \<longrightarrow> 0 \<le> capital_contributed q * r"
      using Cons.prems(3,4) by auto
    then have "m_preferred_return r (p # ps) (pp, 0) = (pp, 0)"
      using inv Cons.prems(2) unfolding r0 by (intro m_preferred_return_zero_pool)
    then show ?thesis by (simp add: r0)
  next
    case False
    show ?thesis
    proof (cases "receives_preferred_return p")
      case True
      let ?d = "min (dmul (capital_contributed p) r) rem"
      have inv': "settled ps0 (dict_add pp (partner_id p) ?d, dsub rem ?d)"
        using inv by (rule settled_distribute) simp
      have "m_preferred_return r ps (dict_add pp (partner_id p) ?d, dsub rem ?d)
              = preferred_return r ps (dict_add pp (partner_id p) ?d, dsub rem ?d)"
        using inv' sub el nn by (rule Cons.IH)
      then show ?thesis using True elp False by (simp add: Let_def)
    next
      case no: False
      have "m_preferred_return r ps (pp, rem) = preferred_return r ps (pp, rem)"
        using inv sub el nn by (rule Cons.IH)
      then show ?thesis using no elp False by simp
    qed
  qed
qed

lemma m_percentage_of_remaining_none:
  "\<forall>p \<in> set ps. \<not> eligible p \<Longrightarrow> m_percentage_of_remaining eligible pct ps st = st"
proof (induction ps)
  case Nil
  show ?case by simp
next
  case (Cons p ps)
  obtain pp rem where st: "st = (pp, rem)" by (cases st)
  show ?case using Cons by (simp add: st)
qed

lemma m_pro_rata_shares_pos:
  "0 < t \<Longrightarrow> m_pro_rata_shares t rem ps pp = pro_rata_shares t rem ps pp"
  by (induction ps arbitrary: pp) (simp_all add: Let_def)

lemma m_pro_rata_shares_none:
  assumes "settled ps0 (pp, rem0)" and "set ps \<subseteq> set ps0" and "\<not> 0 < t \<or> rem = 0"
  shows "m_pro_rata_shares t rem ps pp = pp"
  using assms(2)
proof (induction ps)
  case Nil
  show ?case by simp
next
  case (Cons p ps)
  have p: "p \<in> set ps0" using Cons.prems by simp
  have add0: "dict_add pp (partner_id p) 0 = pp" using assms(1) p by (rule dict_add_zero)
  have "dmul rem (if 0 < t then ddiv (ownership_percentage p) t else 0) = 0"
    using assms(3) by (auto simp: dmul_def)
  then show ?case using Cons by (simp add: Let_def add0)
qed

subsection \<open>The two step dispatchers and the two step loops\<close>

lemma apply_step_other:
  assumes "step_type s \<noteq> ''return_of_capital''" and "step_type s \<noteq> ''preferred_return''"
    and "step_type s \<noteq> ''pro_rata''"
  shows "apply_step ps s st = st"
  using assms by (simp add: apply_step_def)

lemma apply_step_settled:
  assumes "settled ps (pp, rem)" and "step_type s \<noteq> ''pro_rata''"
  shows "settled ps (apply_step ps s (pp, rem))"
  using assms return_of_capital_settled [of ps pp rem ps]
    preferred_return_settled [of ps pp rem "rate s" ps]
  by (simp add: apply_step_def)

lemma m_apply_step_zero:
  assumes "comparable_step ps paid s" and "settled ps (pp, 0)"
    and "step_type s \<noteq> ''pro_rata''"
  shows "m_apply_step ps s (pp, 0) = (pp, 0)"
proof -
  consider (roc) "step_type s = ''return_of_capital''"
    | (pref) "step_type s = ''preferred_return''"
    | (cu) "step_type s = ''catch_up''"
    | (pm) "step_type s = ''promote''"
    | (other) "step_type s \<noteq> ''return_of_capital''" "step_type s \<noteq> ''preferred_return''"
        "step_type s \<noteq> ''catch_up''" "step_type s \<noteq> ''promote''"
    by blast
  then show ?thesis
  proof cases
    case roc
    have "\<forall>p \<in> set ps. 0 \<le> capital_contributed p"
      using assms(1) roc by (simp add: comparable_step_def)
    then have "m_return_of_capital ps (pp, 0) = (pp, 0)"
      using assms(2) by (intro m_return_of_capital_zero_pool [where ?ps0.0 = ps]) simp_all
    then show ?thesis using roc by (simp add: m_apply_step_def)
  next
    case pref
    have "\<forall>p \<in> set ps. partner_type p = ''limited'' \<longrightarrow> 0 \<le> capital_contributed p * rate s"
      using assms(1) pref by (simp add: comparable_step_def)
    then have "m_preferred_return (rate s) ps (pp, 0) = (pp, 0)"
      using assms(2) by (intro m_preferred_return_zero_pool [where ?ps0.0 = ps]) simp_all
    then show ?thesis using pref by (simp add: m_apply_step_def)
  next
    case cu
    have "\<forall>p \<in> set ps. \<not> partner_type p = ''general''"
      using assms(1) cu by (simp add: comparable_step_def)
    then have "m_percentage_of_remaining (\<lambda>p. partner_type p = ''general'')
                 (ddiv (percentage s) 100) ps (pp, 0) = (pp, 0)"
      by (rule m_percentage_of_remaining_none)
    then show ?thesis using cu by (simp add: m_apply_step_def)
  next
    case pm
    have "\<forall>p \<in> set ps. \<not> receives_promote p"
      using assms(1) pm by (simp add: comparable_step_def)
    then have "m_percentage_of_remaining receives_promote
                 (ddiv (percentage s) 100) ps (pp, 0) = (pp, 0)"
      by (rule m_percentage_of_remaining_none)
    then show ?thesis using pm by (simp add: m_apply_step_def)
  next
    case other
    then show ?thesis using assms(3) by (simp add: m_apply_step_def)
  qed
qed

lemma m_apply_step_eq:
  assumes "comparable_step ps paid s" and "settled ps (pp, rem)" and "0 < rem"
    and "\<not> paid \<longrightarrow> (\<forall>p \<in> set ps. map_of pp (partner_id p) = Some 0)"
    and "step_type s \<noteq> ''pro_rata''"
  shows "m_apply_step ps s (pp, rem) = apply_step ps s (pp, rem)"
proof -
  consider (roc) "step_type s = ''return_of_capital''"
    | (pref) "step_type s = ''preferred_return''"
    | (cu) "step_type s = ''catch_up''"
    | (pm) "step_type s = ''promote''"
    | (other) "step_type s \<noteq> ''return_of_capital''" "step_type s \<noteq> ''preferred_return''"
        "step_type s \<noteq> ''catch_up''" "step_type s \<noteq> ''promote''"
    by blast
  then show ?thesis
  proof cases
    case roc
    have c: "\<not> paid" "distinct (map partner_id ps)"
      "\<forall>p \<in> set ps. 0 \<le> capital_contributed p
          \<and> ctx_round (capital_contributed p) = capital_contributed p"
      using assms(1) roc by (simp_all add: comparable_step_def)
    have u: "\<forall>p \<in> set ps. map_of pp (partner_id p) = Some 0" using assms(4) c(1) by simp
    have "m_return_of_capital ps (pp, rem) = return_of_capital ps (pp, rem)"
      using assms(2) subset_refl assms(3) c(2) u c(3) by (rule m_return_of_capital_eq)
    then show ?thesis using roc by (simp add: m_apply_step_def apply_step_def)
  next
    case pref
    have c: "\<forall>p \<in> set ps. receives_preferred_return p = (partner_type p = ''limited'')"
      "\<forall>p \<in> set ps. receives_preferred_return p \<longrightarrow> 0 \<le> capital_contributed p * rate s"
      using assms(1) pref by (simp_all add: comparable_step_def)
    have "m_preferred_return (rate s) ps (pp, rem) = preferred_return (rate s) ps (pp, rem)"
      using assms(2) subset_refl c by (rule m_preferred_return_eq)
    then show ?thesis using pref by (simp add: m_apply_step_def apply_step_def)
  next
    case cu
    have "\<forall>p \<in> set ps. \<not> partner_type p = ''general''"
      using assms(1) cu by (simp add: comparable_step_def)
    then have "m_percentage_of_remaining (\<lambda>p. partner_type p = ''general'')
                 (ddiv (percentage s) 100) ps (pp, rem) = (pp, rem)"
      by (rule m_percentage_of_remaining_none)
    then show ?thesis using cu by (simp add: m_apply_step_def apply_step_def)
  next
    case pm
    have "\<forall>p \<in> set ps. \<not> receives_promote p"
      using assms(1) pm by (simp add: comparable_step_def)
    then have "m_percentage_of_remaining receives_promote
                 (ddiv (percentage s) 100) ps (pp, rem) = (pp, rem)"
      by (rule m_percentage_of_remaining_none)
    then show ?thesis using pm by (simp add: m_apply_step_def apply_step_def)
  next
    case other
    then show ?thesis using assms(5) by (simp add: m_apply_step_def apply_step_def)
  qed
qed

lemma m_waterfall_loop_eq:
  assumes "comparable_steps ps paid steps" and "settled ps (pp, rem)"
    and "\<not> paid \<longrightarrow> (\<forall>p \<in> set ps. map_of pp (partner_id p) = Some 0)"
  shows "\<exists>st. m_waterfall_loop ps steps (pp, rem) = Inr st
           \<and> fst st = fst (waterfall_loop ps steps (pp, rem))
           \<and> ((\<forall>s \<in> set steps. step_type s \<noteq> ''pro_rata'')
                \<longrightarrow> snd st = snd (waterfall_loop ps steps (pp, rem)))"
  using assms
proof (induction steps arbitrary: paid pp rem)
  case Nil
  show ?case by simp
next
  case (Cons s ss)
  note inv = Cons.prems(2)
  have cs: "comparable_step ps paid s" and last: "step_type s = ''pro_rata'' \<longrightarrow> ss = []"
    and rest: "comparable_steps ps
                 (paid \<or> step_type s = ''return_of_capital'' \<or> step_type s = ''preferred_return'') ss"
    using Cons.prems(1) by simp_all
  obtain a where a: "amount s = Some a" using cs by (auto simp: comparable_step_def)
  have rem0: "0 \<le> rem" using settledD(4) [OF inv] .
  show ?case
  proof (cases "step_type s = ''pro_rata''")
    case True
    then have ss: "ss = []" using last by simp
    let ?t = "dsum (map ownership_percentage ps)"
    have m: "m_waterfall_loop ps (s # ss) (pp, rem) = Inr (m_pro_rata_shares ?t rem ps pp, rem)"
      using True by (simp add: ss a m_apply_step_def Let_def)
    have "m_pro_rata_shares ?t rem ps pp = fst (waterfall_loop ps (s # ss) (pp, rem))"
    proof (cases "0 < rem \<and> 0 < ?t")
      case go: True
      then have "m_pro_rata_shares ?t rem ps pp = pro_rata_shares ?t rem ps pp"
        by (simp add: m_pro_rata_shares_pos)
      then show ?thesis using go True by (simp add: ss apply_step_def pro_rata_def Let_def)
    next
      case False
      then have "\<not> 0 < ?t \<or> rem = 0" using rem0 by auto
      with inv subset_refl have "m_pro_rata_shares ?t rem ps pp = pp"
        by (rule m_pro_rata_shares_none)
      then show ?thesis using False True rem0
        by (auto simp: ss apply_step_def pro_rata_def Let_def)
    qed
    then show ?thesis using True unfolding m by simp
  next
    case False
    show ?thesis
    proof (cases "rem \<le> 0")
      case True
      then have r0: "rem = 0" using rem0 by simp
      have "m_apply_step ps s (pp, 0) = (pp, 0)"
        using cs inv False unfolding r0 by (rule m_apply_step_zero)
      then have "m_waterfall_loop ps (s # ss) (pp, rem) = Inr (pp, rem)"
        by (simp add: r0 a)
      then show ?thesis using True by simp
    next
      case pos: False
      then have p: "0 < rem" by simp
      obtain pp' rem' where st': "apply_step ps s (pp, rem) = (pp', rem')"
        by (cases "apply_step ps s (pp, rem)")
      have ms: "m_apply_step ps s (pp, rem) = (pp', rem')"
        using m_apply_step_eq [OF cs inv p Cons.prems(3) False] st' by simp
      have inv': "settled ps (pp', rem')"
        using apply_step_settled [OF inv False] st' by simp
      have w: "waterfall_loop ps (s # ss) (pp, rem) = waterfall_loop ps ss (pp', rem')"
        using pos st' by simp
      show ?thesis
      proof (cases "rem' \<le> 0")
        case True
        then have "m_waterfall_loop ps (s # ss) (pp, rem) = Inr (pp', rem')"
          by (simp add: a ms)
        moreover have "waterfall_loop ps ss (pp', rem') = (pp', rem')"
          using True by (rule waterfall_loop_nonpos)
        ultimately show ?thesis unfolding w by simp
      next
        case go: False
        then have m: "m_waterfall_loop ps (s # ss) (pp, rem) = m_waterfall_loop ps ss (pp', rem')"
          by (simp add: a ms)
        have un: "\<not> (paid \<or> step_type s = ''return_of_capital''
                       \<or> step_type s = ''preferred_return'')
                  \<longrightarrow> (\<forall>p \<in> set ps. map_of pp' (partner_id p) = Some 0)"
        proof
          assume n: "\<not> (paid \<or> step_type s = ''return_of_capital''
                       \<or> step_type s = ''preferred_return'')"
          then have "apply_step ps s (pp, rem) = (pp, rem)"
            using False by (intro apply_step_other) simp_all
          then have "pp' = pp" using st' by simp
          then show "\<forall>p \<in> set ps. map_of pp' (partner_id p) = Some 0"
            using Cons.prems(3) n by simp
        qed
        from Cons.IH [OF rest inv' un] obtain st where
          st: "m_waterfall_loop ps ss (pp', rem') = Inr st"
            "fst st = fst (waterfall_loop ps ss (pp', rem'))"
            "(\<forall>s \<in> set ss. step_type s \<noteq> ''pro_rata'')
                \<longrightarrow> snd st = snd (waterfall_loop ps ss (pp', rem'))"
          by blast
        show ?thesis unfolding m w using st by simp
      qed
    qed
  qed
qed

lemma zero_dict_settled:
  assumes "0 \<le> tp" and "ctx_round tp = tp"
  shows "settled ps (zero_dict ps, tp)"
proof (rule settledI)
  show "\<forall>p \<in> set ps. map_of (zero_dict ps) (partner_id p) \<noteq> None"
    by (simp add: map_of_zero_dict)
  show "\<forall>v \<in> set (dict_values (zero_dict ps)). ctx_round v = v"
  proof
    fix v assume "v \<in> set (dict_values (zero_dict ps))"
    then have "v = 0" by (rule zero_dict_all_zero)
    then show "ctx_round v = v" by simp
  qed
qed (use assms in simp_all)



subsection \<open>Exact payments conserve the proceeds\<close>

lemma exact_transfer_conserves:
  assumes "exact_transfer (pp, rem) k d"
  shows "distributed_and_remaining (dict_add pp k d, dsub rem d)
           = distributed_and_remaining (pp, rem)"
proof -
  have a: "dadd (dict_get pp k) d = dict_get pp k + d" and s: "dsub rem d = rem - d"
    using assms by (simp_all add: exact_transfer_def)
  have "sum_list (dict_values (dict_add pp k d)) = sum_list (dict_values pp) + d"
    unfolding dict_add_def a by (simp add: sum_values_update)
  then show ?thesis by (simp add: distributed_and_remaining_def s)
qed

lemma return_of_capital_conserves:
  "return_of_capital_exact ps (pp, rem) \<Longrightarrow>
   distributed_and_remaining (return_of_capital ps (pp, rem)) = distributed_and_remaining (pp, rem)"
proof (induction ps arbitrary: pp rem)
  case Nil
  show ?case by simp
next
  case (Cons p ps)
  show ?case
  proof (cases "rem \<le> 0")
    case True
    then show ?thesis by simp
  next
    case False
    let ?u = "dsub (capital_contributed p) (dict_get pp (partner_id p))"
    show ?thesis
    proof (cases "0 < ?u")
      case True
      let ?d = "min ?u rem"
      have e: "exact_transfer (pp, rem) (partner_id p) ?d"
        and r: "return_of_capital_exact ps (dict_add pp (partner_id p) ?d, dsub rem ?d)"
        using Cons.prems False True by (simp_all add: Let_def)
      have "distributed_and_remaining (return_of_capital (p # ps) (pp, rem))
              = distributed_and_remaining
                  (return_of_capital ps (dict_add pp (partner_id p) ?d, dsub rem ?d))"
        using False True by (simp add: Let_def)
      also have "\<dots> = distributed_and_remaining (dict_add pp (partner_id p) ?d, dsub rem ?d)"
        using r by (rule Cons.IH)
      also have "\<dots> = distributed_and_remaining (pp, rem)"
        using e by (rule exact_transfer_conserves)
      finally show ?thesis .
    next
      case no: False
      have r: "return_of_capital_exact ps (pp, rem)"
        using Cons.prems False no by (simp add: Let_def)
      have "distributed_and_remaining (return_of_capital (p # ps) (pp, rem))
              = distributed_and_remaining (return_of_capital ps (pp, rem))"
        using False no by (simp add: Let_def)
      also have "\<dots> = distributed_and_remaining (pp, rem)" using r by (rule Cons.IH)
      finally show ?thesis .
    qed
  qed
qed

lemma preferred_return_conserves:
  "preferred_return_exact r ps (pp, rem) \<Longrightarrow>
   distributed_and_remaining (preferred_return r ps (pp, rem)) = distributed_and_remaining (pp, rem)"
proof (induction ps arbitrary: pp rem)
  case Nil
  show ?case by simp
next
  case (Cons p ps)
  show ?case
  proof (cases "rem \<le> 0")
    case True
    then show ?thesis by simp
  next
    case False
    show ?thesis
    proof (cases "receives_preferred_return p")
      case True
      let ?d = "min (dmul (capital_contributed p) r) rem"
      have e: "exact_transfer (pp, rem) (partner_id p) ?d"
        and x: "preferred_return_exact r ps (dict_add pp (partner_id p) ?d, dsub rem ?d)"
        using Cons.prems False True by (simp_all add: Let_def)
      have "distributed_and_remaining (preferred_return r (p # ps) (pp, rem))
              = distributed_and_remaining
                  (preferred_return r ps (dict_add pp (partner_id p) ?d, dsub rem ?d))"
        using False True by (simp add: Let_def)
      also have "\<dots> = distributed_and_remaining (dict_add pp (partner_id p) ?d, dsub rem ?d)"
        using x by (rule Cons.IH)
      also have "\<dots> = distributed_and_remaining (pp, rem)"
        using e by (rule exact_transfer_conserves)
      finally show ?thesis .
    next
      case no: False
      have x: "preferred_return_exact r ps (pp, rem)"
        using Cons.prems False no by simp
      have "distributed_and_remaining (preferred_return r (p # ps) (pp, rem))
              = distributed_and_remaining (preferred_return r ps (pp, rem))"
        using False no by simp
      also have "\<dots> = distributed_and_remaining (pp, rem)" using x by (rule Cons.IH)
      finally show ?thesis .
    qed
  qed
qed

lemma pro_rata_shares_sum:
  "pro_rata_shares_exact t rem ps pp \<Longrightarrow>
   sum_list (dict_values (pro_rata_shares t rem ps pp))
     = sum_list (dict_values pp) + rem * (sum_list (map ownership_percentage ps) / t)"
proof (induction ps arbitrary: pp)
  case Nil
  show ?case by simp
next
  case (Cons p ps)
  let ?d = "dmul rem (ddiv (ownership_percentage p) t)"
  have sh: "ddiv (ownership_percentage p) t = ownership_percentage p / t"
    and d: "?d = rem * ddiv (ownership_percentage p) t"
    and a: "dadd (dict_get pp (partner_id p)) ?d = dict_get pp (partner_id p) + ?d"
    and x: "pro_rata_shares_exact t rem ps (dict_add pp (partner_id p) ?d)"
    using Cons.prems unfolding pro_rata_shares_exact.simps Let_def by blast+
  have dv: "?d = rem * (ownership_percentage p / t)" using d sh by simp
  have s: "sum_list (dict_values (dict_add pp (partner_id p) ?d)) = sum_list (dict_values pp) + ?d"
    unfolding dict_add_def a by (simp add: sum_values_update)
  have "sum_list (dict_values (pro_rata_shares t rem (p # ps) pp))
          = sum_list (dict_values (pro_rata_shares t rem ps (dict_add pp (partner_id p) ?d)))"
    by (simp add: Let_def)
  also have "\<dots> = sum_list (dict_values (dict_add pp (partner_id p) ?d))
                      + rem * (sum_list (map ownership_percentage ps) / t)"
    using x by (rule Cons.IH)
  also have "\<dots> = sum_list (dict_values pp) + ?d
                      + rem * (sum_list (map ownership_percentage ps) / t)"
    by (simp only: s)
  also have "\<dots> = sum_list (dict_values pp) + rem * (ownership_percentage p / t)
                      + rem * (sum_list (map ownership_percentage ps) / t)"
    by (simp only: dv)
  also have "\<dots> = sum_list (dict_values pp)
                      + rem * (sum_list (map ownership_percentage (p # ps)) / t)"
    by (simp add: algebra_simps add_divide_distrib)
  finally show ?case .
qed

lemma pro_rata_conserves:
  assumes "pro_rata_exact ps (pp, rem)"
  shows "distributed_and_remaining (pro_rata ps (pp, rem)) = distributed_and_remaining (pp, rem)"
proof (cases "0 < dsum (map ownership_percentage ps)")
  case True
  let ?t = "dsum (map ownership_percentage ps)"
  have h: "if 0 < ?t then ?t = sum_list (map ownership_percentage ps)
                        \<and> pro_rata_shares_exact ?t rem ps pp else True"
    using assms unfolding pro_rata_exact_def Let_def fst_conv snd_conv .
  have "?t = sum_list (map ownership_percentage ps) \<and> pro_rata_shares_exact ?t rem ps pp"
    by (rule iffD1 [OF if_P [OF True] h])
  then have t: "?t = sum_list (map ownership_percentage ps)"
    and x: "pro_rata_shares_exact ?t rem ps pp"
    by blast+
  have nz: "?t \<noteq> 0" using True by simp
  have "sum_list (dict_values (pro_rata_shares ?t rem ps pp))
          = sum_list (dict_values pp) + rem * (sum_list (map ownership_percentage ps) / ?t)"
    using x by (rule pro_rata_shares_sum)
  also have "sum_list (map ownership_percentage ps) / ?t = 1" using nz t by simp
  finally have "sum_list (dict_values (pro_rata_shares ?t rem ps pp))
                  = sum_list (dict_values pp) + rem" by simp
  then show ?thesis using True by (simp add: pro_rata_def Let_def distributed_and_remaining_def)
next
  case False
  then show ?thesis by (simp add: pro_rata_def Let_def)
qed

lemma apply_step_conserves:
  assumes "apply_step_exact ps s (pp, rem)"
  shows "distributed_and_remaining (apply_step ps s (pp, rem)) = distributed_and_remaining (pp, rem)"
  using assms return_of_capital_conserves [of ps pp rem]
    preferred_return_conserves [of "rate s" ps pp rem] pro_rata_conserves [of ps pp rem]
  by (simp add: apply_step_def apply_step_exact_def split: if_splits)

lemma waterfall_loop_take_conserves:
  "waterfall_exact ps steps (pp, rem) \<Longrightarrow>
   distributed_and_remaining (waterfall_loop ps (take k steps) (pp, rem))
     = distributed_and_remaining (pp, rem)"
proof (induction steps arbitrary: k pp rem)
  case Nil
  show ?case by simp
next
  case (Cons s ss)
  show ?case
  proof (cases k)
    case 0
    then show ?thesis by simp
  next
    case (Suc j)
    show ?thesis
    proof (cases "rem \<le> 0")
      case True
      then show ?thesis by (simp add: Suc)
    next
      case False
      obtain pp' rem' where st': "apply_step ps s (pp, rem) = (pp', rem')"
        by (cases "apply_step ps s (pp, rem)")
      have e: "apply_step_exact ps s (pp, rem)" and x: "waterfall_exact ps ss (pp', rem')"
        using Cons.prems False st' by simp_all
      have "distributed_and_remaining (waterfall_loop ps (take k (s # ss)) (pp, rem))
              = distributed_and_remaining (waterfall_loop ps (take j ss) (pp', rem'))"
        using False by (simp add: Suc st')
      also have "\<dots> = distributed_and_remaining (pp', rem')" using x by (rule Cons.IH)
      also have "\<dots> = distributed_and_remaining (pp, rem)"
        using apply_step_conserves [OF e] st' by simp
      finally show ?thesis .
    qed
  qed
qed

lemma zero_dict_distributed: "distributed_and_remaining (zero_dict ps, tp) = tp"
proof -
  have "set (dict_values (zero_dict ps)) \<subseteq> {0}" by (rule zero_dict_values)
  then have "sum_list (dict_values (zero_dict ps)) = 0" by (rule sum_list_zero_values)
  then show ?thesis by (simp add: distributed_and_remaining_def)
qed

subsection \<open>The \<open>pro_rata\<close> step empties the pool\<close>

lemma waterfall_loop_snoc:
  "waterfall_loop ps (steps @ [s]) st
     = (let st' = waterfall_loop ps steps st
        in if snd st' \<le> 0 then st' else apply_step ps s st')"
proof (induction steps arbitrary: st)
  case Nil
  obtain pp rem where "st = (pp, rem)" by (cases st)
  then show ?case by (simp add: Let_def)
next
  case (Cons a steps)
  obtain pp rem where st: "st = (pp, rem)" by (cases st)
  show ?case
  proof (cases "rem \<le> 0")
    case True
    then show ?thesis by (simp add: st Let_def)
  next
    case False
    then show ?thesis using Cons.IH by (simp add: st)
  qed
qed

lemma pro_rata_empties:
  "0 < dsum (map ownership_percentage ps) \<Longrightarrow> snd (pro_rata ps st) = 0"
  by (simp add: pro_rata_def Let_def)

subsection \<open>The manager's loops\<close>

lemma m_return_of_capital_conserves:
  "m_return_of_capital_exact ps (pp, rem) \<Longrightarrow>
   distributed_and_remaining (m_return_of_capital ps (pp, rem)) = distributed_and_remaining (pp, rem)"
proof (induction ps arbitrary: pp rem)
  case Nil
  show ?case by simp
next
  case (Cons p ps)
  let ?d = "min (capital_contributed p) rem"
  have e: "exact_transfer (pp, rem) (partner_id p) ?d"
    using Cons.prems by (simp add: Let_def)
  note c = exact_transfer_conserves [OF e]
  show ?case
  proof (cases "dsub rem ?d \<le> 0")
    case True
    then show ?thesis using c by (simp add: Let_def)
  next
    case False
    then have x: "m_return_of_capital_exact ps (dict_add pp (partner_id p) ?d, dsub rem ?d)"
      using Cons.prems by (simp add: Let_def)
    have "distributed_and_remaining (m_return_of_capital (p # ps) (pp, rem))
            = distributed_and_remaining
                (m_return_of_capital ps (dict_add pp (partner_id p) ?d, dsub rem ?d))"
      using False by (simp add: Let_def)
    also have "\<dots> = distributed_and_remaining (dict_add pp (partner_id p) ?d, dsub rem ?d)"
      using x by (rule Cons.IH)
    finally show ?thesis using c by simp
  qed
qed

lemma m_preferred_return_conserves:
  "m_preferred_return_exact r ps (pp, rem) \<Longrightarrow>
   distributed_and_remaining (m_preferred_return r ps (pp, rem)) = distributed_and_remaining (pp, rem)"
proof (induction ps arbitrary: pp rem)
  case Nil
  show ?case by simp
next
  case (Cons p ps)
  show ?case
  proof (cases "partner_type p = ''limited''")
    case True
    let ?d = "min (dmul (capital_contributed p) r) rem"
    have e: "exact_transfer (pp, rem) (partner_id p) ?d"
      and x: "m_preferred_return_exact r ps (dict_add pp (partner_id p) ?d, dsub rem ?d)"
      using Cons.prems True by (simp_all add: Let_def)
    have "distributed_and_remaining (m_preferred_return r (p # ps) (pp, rem))
            = distributed_and_remaining
                (m_preferred_return r ps (dict_add pp (partner_id p) ?d, dsub rem ?d))"
      using True by (simp add: Let_def)
    also have "\<dots> = distributed_and_remaining (dict_add pp (partner_id p) ?d, dsub rem ?d)"
      using x by (rule Cons.IH)
    also have "\<dots> = distributed_and_remaining (pp, rem)"
      using e by (rule exact_transfer_conserves)
    finally show ?thesis .
  next
    case False
    then show ?thesis using Cons by simp
  qed
qed

lemma m_percentage_of_remaining_conserves:
  "m_percentage_of_remaining_exact el pct ps (pp, rem) \<Longrightarrow>
   distributed_and_remaining (m_percentage_of_remaining el pct ps (pp, rem))
     = distributed_and_remaining (pp, rem)"
proof (induction ps arbitrary: pp rem)
  case Nil
  show ?case by simp
next
  case (Cons p ps)
  show ?case
  proof (cases "el p")
    case True
    let ?d = "dmul rem pct"
    have e: "exact_transfer (pp, rem) (partner_id p) ?d"
      and x: "m_percentage_of_remaining_exact el pct ps
                (dict_add pp (partner_id p) ?d, dsub rem ?d)"
      using Cons.prems True by (simp_all add: Let_def)
    have "distributed_and_remaining (m_percentage_of_remaining el pct (p # ps) (pp, rem))
            = distributed_and_remaining
                (m_percentage_of_remaining el pct ps (dict_add pp (partner_id p) ?d, dsub rem ?d))"
      using True by (simp add: Let_def)
    also have "\<dots> = distributed_and_remaining (dict_add pp (partner_id p) ?d, dsub rem ?d)"
      using x by (rule Cons.IH)
    also have "\<dots> = distributed_and_remaining (pp, rem)"
      using e by (rule exact_transfer_conserves)
    finally show ?thesis .
  next
    case False
    then show ?thesis using Cons by simp
  qed
qed

lemma m_apply_step_conserves:
  assumes "m_apply_step_exact ps s (pp, rem)" and "step_type s \<noteq> ''pro_rata''"
  shows "distributed_and_remaining (m_apply_step ps s (pp, rem))
           = distributed_and_remaining (pp, rem)"
  using assms m_return_of_capital_conserves [of ps pp rem]
    m_preferred_return_conserves [of "rate s" ps pp rem]
    m_percentage_of_remaining_conserves
      [of "\<lambda>p. partner_type p = ''general''" "ddiv (percentage s) 100" ps pp rem]
    m_percentage_of_remaining_conserves [of receives_promote "ddiv (percentage s) 100" ps pp rem]
  by (simp add: m_apply_step_def m_apply_step_exact_def split: if_splits)

lemma m_waterfall_loop_take_conserves:
  assumes "m_waterfall_exact ps steps st" and "\<forall>s \<in> set steps. step_type s \<noteq> ''pro_rata''"
    and "m_waterfall_loop ps (take k steps) st = Inr st'"
  shows "distributed_and_remaining st' = distributed_and_remaining st"
  using assms
proof (induction steps arbitrary: k st)
  case Nil
  then show ?case by simp
next
  case (Cons s ss)
  show ?case
  proof (cases k)
    case 0
    then show ?thesis using Cons.prems(3) by simp
  next
    case (Suc j)
    obtain pp rem where st: "st = (pp, rem)" by (cases st)
    obtain a where a: "amount s = Some a"
      using Cons.prems(3) by (cases "amount s") (simp_all add: Suc)
    let ?st1 = "m_apply_step ps s st"
    have e: "m_apply_step_exact ps s (pp, rem)" using Cons.prems(1) by (simp add: st)
    have np: "step_type s \<noteq> ''pro_rata''" using Cons.prems(2) by simp
    have c: "distributed_and_remaining ?st1 = distributed_and_remaining st"
      unfolding st using e np by (rule m_apply_step_conserves)
    show ?thesis
    proof (cases "snd ?st1 \<le> 0")
      case True
      then have "st' = ?st1" using Cons.prems(3) by (simp add: Suc a Let_def)
      then show ?thesis using c by simp
    next
      case False
      then have x: "m_waterfall_exact ps ss ?st1" using Cons.prems(1) by (simp add: Let_def)
      have l: "m_waterfall_loop ps (take j ss) ?st1 = Inr st'"
        using Cons.prems(3) False by (simp add: Suc a Let_def)
      have "distributed_and_remaining st' = distributed_and_remaining ?st1"
        using x _ l by (rule Cons.IH) (use Cons.prems(2) in simp)
      then show ?thesis using c by simp
    qed
  qed
qed

subsection \<open>The final rounding\<close>

lemma round_half_up_error: "\<bar>of_int (round_half_up q) - q\<bar> \<le> 1 / 2"
proof (cases "0 \<le> q")
  case True
  define f where "f = \<lfloor>q + 1 / 2\<rfloor>"
  have "of_int f \<le> q + 1 / 2" and "q + 1 / 2 < of_int f + 1" unfolding f_def by linarith+
  then have "\<bar>of_int f - q\<bar> \<le> 1 / 2" by linarith
  moreover have "round_half_up q = f" using True by (simp add: round_half_up_def f_def)
  ultimately show ?thesis by simp
next
  case False
  define f where "f = \<lfloor>- q + 1 / 2\<rfloor>"
  have "of_int f \<le> - q + 1 / 2" and "- q + 1 / 2 < of_int f + 1" unfolding f_def by linarith+
  then have "\<bar>- of_int f - q\<bar> \<le> 1 / 2" by linarith
  moreover have "round_half_up q = - f" using False by (simp add: round_half_up_def f_def)
  ultimately show ?thesis by simp
qed

lemma quantize_half_up_error:
  assumes "quantize_half_up v = Inr w"
  shows "\<bar>w - v\<bar> \<le> 1 / 200"
proof -
  have w: "w = of_int (round_half_up (v * 100)) / 100"
    using assms by (simp add: quantize_half_up_def quantize_with_def Let_def split: if_splits)
  have "\<bar>w - v\<bar> = \<bar>of_int (round_half_up (v * 100)) - v * 100\<bar> / 100"
    unfolding w by (simp add: abs_if field_simps)
  also have "\<dots> \<le> (1 / 2) / 100"
    using round_half_up_error [of "v * 100"] by (intro divide_right_mono) simp_all
  finally show ?thesis by simp
qed

lemma quantize_half_up_whole_cents:
  assumes "quantize_half_up v = Inr w" and "is_cents v"
  shows "w = v"
proof -
  have w: "w = of_int (round_half_up (v * 100)) / 100"
    using assms(1) by (simp add: quantize_half_up_def quantize_with_def Let_def split: if_splits)
  from assms(2) obtain c :: int where c: "v = of_int c / 100" by (auto simp: is_cents_iff)
  have "round_half_up (v * 100) = c" unfolding c by (simp add: round_half_up_of_int)
  then show ?thesis unfolding w by (simp add: c)
qed

lemma quantize_all_error:
  "quantize_all quantize_half_up d = Inr out \<Longrightarrow>
   length out = length d
   \<and> \<bar>sum_list (dict_values out) - sum_list (dict_values d)\<bar> \<le> of_nat (length d) / 200"
proof (induction d arbitrary: out)
  case Nil
  then show ?case by (simp add: dict_values_def)
next
  case (Cons kv d)
  obtain k v where kv: "kv = (k, v)" by (cases kv)
  from Cons.prems obtain w rest where w: "quantize_half_up v = Inr w"
    and rest: "quantize_all quantize_half_up d = Inr rest" and out: "out = (k, w) # rest"
    by (auto simp: kv split: sum.splits)
  note ih = Cons.IH [OF rest]
  note e = quantize_half_up_error [OF w]
  have "\<bar>sum_list (dict_values out) - sum_list (dict_values (kv # d))\<bar>
          = \<bar>(w - v) + (sum_list (dict_values rest) - sum_list (dict_values d))\<bar>"
    by (simp add: out kv dict_values_def)
  also have "\<dots> \<le> \<bar>w - v\<bar> + \<bar>sum_list (dict_values rest) - sum_list (dict_values d)\<bar>"
    by (rule abs_triangle_ineq)
  also have "\<dots> \<le> 1 / 200 + of_nat (length d) / 200" using e ih by linarith
  also have "\<dots> = of_nat (length (kv # d)) / 200" by (simp add: add_divide_distrib)
  finally show ?case using ih by (simp add: out)
qed

lemma quantize_all_whole_cents:
  "quantize_all quantize_half_up d = Inr out \<Longrightarrow> \<forall>v \<in> set (dict_values d). is_cents v \<Longrightarrow>
   out = d"
proof (induction d arbitrary: out)
  case Nil
  then show ?case by simp
next
  case (Cons kv d)
  obtain k v where kv: "kv = (k, v)" by (cases kv)
  from Cons.prems(1) obtain w rest where w: "quantize_half_up v = Inr w"
    and rest: "quantize_all quantize_half_up d = Inr rest" and out: "out = (k, w) # rest"
    by (auto simp: kv split: sum.splits)
  have "is_cents v" using Cons.prems(2) by (simp add: kv dict_values_def)
  with w have "w = v" by (rule quantize_half_up_whole_cents)
  moreover have "rest = d" using rest Cons.prems(2) by (intro Cons.IH) (simp_all add: dict_values_def)
  ultimately show ?case by (simp add: out kv)
qed

subsection \<open>Conservation of the proceeds\<close>

lemma m_waterfall_loop_returns:
  "\<forall>s \<in> set steps. amount s \<noteq> None \<Longrightarrow> \<exists>st'. m_waterfall_loop ps steps st = Inr st'"
proof (induction steps arbitrary: st)
  case Nil
  show ?case by simp
next
  case (Cons s ss)
  obtain a where a: "amount s = Some a" using Cons.prems by auto
  have "\<exists>st'. m_waterfall_loop ps ss (m_apply_step ps s st) = Inr st'"
    using Cons.prems by (intro Cons.IH) simp
  then show ?case by (simp add: a Let_def)
qed

lemma liquidation_state_after_pro_rata:
  assumes "k < length steps" and "step_type (steps ! k) = ''pro_rata''"
    and "0 < dsum (map ownership_percentage ps)"
    and "0 < snd (liquidation_state tp (take k steps) ps)"
  shows "snd (liquidation_state tp (take (Suc k) steps) ps) = 0"
proof -
  have t: "take (Suc k) steps = take k steps @ [steps ! k]"
    using assms(1) by (rule take_Suc_conv_app_nth)
  have "liquidation_state tp (take (Suc k) steps) ps
          = apply_step ps (steps ! k) (liquidation_state tp (take k steps) ps)"
    using assms(4) unfolding liquidation_state_def t waterfall_loop_snoc by (simp add: Let_def)
  also have "\<dots> = pro_rata ps (liquidation_state tp (take k steps) ps)"
    using assms(2) by (simp add: apply_step_def)
  finally show ?thesis using assms(3) by (simp add: pro_rata_empties)
qed



end
